theory Spec2Isabelle
  imports Main "HOL-Library.AList" "HOL-Library.Word" "HOL-Library.Monad_Syntax"
begin

section \<open>policy.go: entries, refresh coordination and policy selection\<close>

text \<open>
  Keys and values are opaque to the cache (\<^verbatim>\<open>Key\<close> and \<^verbatim>\<open>Value\<close> are interfaces in
  the source); they are the type parameters \<open>'k\<close> and \<open>'v\<close>. Instants of time are
  natural numbers. The type \<^verbatim>\<open>listID\<close> is declared outside the two source files and is
  a type parameter as well.
\<close>

type_synonym time = nat

text \<open>
  The struct \<^verbatim>\<open>entry\<close> of policy.go. The field \<^verbatim>\<open>value\<close> is called \<open>val\<close> here.
  The mutex \<^verbatim>\<open>refreshMu\<close> is not a field of the record: \<^verbatim>\<open>lockEntry\<close> and
  \<^verbatim>\<open>unlockEntry\<close> hold it from their first statement to their last, so each call is
  one atomic step on \<open>isRefreshing\<close>, and concurrent callers are a sequence of such
  steps in the order in which they obtain the mutex.
\<close>

record ('k, 'v, 'l) entry =
  key :: 'k
  val :: 'v
  accessed :: time
  updated :: time
  listID :: 'l
  hash :: "64 word"
  isRefreshing :: bool

text \<open>\<^verbatim>\<open>lockEntry\<close>: returns \<^verbatim>\<open>canRefresh\<close> and the entry as the call leaves it.\<close>

definition lockEntry :: "('k, 'v, 'l) entry \<Rightarrow> bool \<times> ('k, 'v, 'l) entry" where
  "lockEntry en =
     (let canRefresh = \<not> isRefreshing en;
          en = en\<lparr>isRefreshing := True\<rparr>
      in (canRefresh, en))"

definition unlockEntry :: "('k, 'v, 'l) entry \<Rightarrow> ('k, 'v, 'l) entry" where
  "unlockEntry en = en\<lparr>isRefreshing := False\<rparr>"

text \<open>
  \<open>lockEntry_times n en\<close> is \<open>n\<close> calls of \<^verbatim>\<open>lockEntry\<close> on the same entry, one after
  the other, by whichever callers: the results in the order of the calls, and the entry
  at the end.
\<close>

fun lockEntry_times :: "nat \<Rightarrow> ('k, 'v, 'l) entry \<Rightarrow> bool list \<times> ('k, 'v, 'l) entry" where
  "lockEntry_times 0 en = ([], en)"
| "lockEntry_times (Suc n) en =
     (let (r, en1) = lockEntry en;
          (rs, en2) = lockEntry_times n en1
      in (r # rs, en2))"

text \<open>
  The policies. The structs \<^verbatim>\<open>slruCache\<close>, \<^verbatim>\<open>lruCache\<close> and \<^verbatim>\<open>tinyLFU\<close> are
  declared outside the two source files; \<^verbatim>\<open>newPolicy\<close> returns a pointer to a
  zero value of one of them, which a constructor without arguments stands for.
\<close>

datatype policy = SlruCache | LruCache | TinyLFU

text \<open>\<^verbatim>\<open>newPolicy\<close>: \<open>Inl msg\<close> is \<^verbatim>\<open>panic(msg)\<close>.\<close>

definition newPolicy :: "string \<Rightarrow> string + policy" where
  "newPolicy name =
     (if name = '''' \<or> name = ''slru'' then Inr SlruCache
      else if name = ''lru'' then Inr LruCache
      else if name = ''tinylfu'' then Inr TinyLFU
      else Inl (''cache: unsupported policy '' @ name))"


section \<open>The local cache: data\<close>

text \<open>
  The second source file declares a struct \<^verbatim>\<open>entry\<close> of its own, with the fields
  \<^verbatim>\<open>key\<close>, \<^verbatim>\<open>value\<close> and \<^verbatim>\<open>lastAccess\<close>; it is the record \<open>localEntry\<close> with
  the fields \<open>ekey\<close>, \<open>evalue\<close> and \<open>lastAccess\<close>.
\<close>

record ('k, 'v) localEntry =
  ekey :: 'k
  evalue :: 'v
  lastAccess :: time

text \<open>
  A \<^verbatim>\<open>*list.Element\<close> is an address: the position of the element in the store
  \<open>heap\<close>, in the order of allocation. The store holds, for each element ever
  allocated, the entry its field \<^verbatim>\<open>Value\<close> points to. An entry belongs to one
  element only (it is made by \<^verbatim>\<open>Put\<close> and handed to that element), so writing a field
  of the entry through \<^verbatim>\<open>el.Value\<close> and replacing \<^verbatim>\<open>el.Value\<close> are both a write of
  the element's cell. The store keeps the cell of an element that has left the list,
  as the source reads \<^verbatim>\<open>el.Value\<close> after \<^verbatim>\<open>Remove(el)\<close>.
\<close>

type_synonym elem = nat

text \<open>
  The struct \<^verbatim>\<open>localCache\<close>. The map \<^verbatim>\<open>cache\<close> is an association list with one pair
  for each key; the order of its pairs is the order in which \<^verbatim>\<open>range\<close> visits them,
  which Go leaves unspecified, and no theorem below depends on it. The list
  \<^verbatim>\<open>entries\<close> is the sequence of its elements from front to back. The callback type
  \<^verbatim>\<open>OnRemoval\<close> is the type parameter \<open>'f\<close>, and \<open>None\<close> is the nil callback. The
  two mutexes are not fields: every method releases what it acquired, and the methods
  are modelled as called one at a time.
\<close>

record ('k, 'v, 'f) localCache =
  maximumSize :: int
  onRemoval :: "'f option"
  cache :: "('k \<times> elem) list"
  entries :: "elem list"
  heap :: "('k, 'v) localEntry list"

definition defaultMaximumSize :: int where
  "defaultMaximumSize = 2 ^ 31 - 1"

definition newLocalCache :: "('k, 'v, 'f) localCache" where
  "newLocalCache =
     \<lparr>maximumSize = defaultMaximumSize, onRemoval = None, cache = [], entries = [],
      heap = []\<rparr>"


subsection \<open>The operations of container/list that the cache uses\<close>

text \<open>
  Membership of an element in \<open>entries\<close> stands for the test \<^verbatim>\<open>e.list == l\<close> of
  the library. \<^verbatim>\<open>MoveToFront\<close> and \<^verbatim>\<open>Remove\<close> leave the list alone when the element
  is not in it; \<^verbatim>\<open>Back\<close> is nil on the empty list.
\<close>

definition PushFront :: "elem \<Rightarrow> elem list \<Rightarrow> elem list" where
  "PushFront e l = e # l"

definition MoveToFront :: "elem \<Rightarrow> elem list \<Rightarrow> elem list" where
  "MoveToFront e l = (if e \<in> set l then e # remove1 e l else l)"

definition Remove :: "elem \<Rightarrow> elem list \<Rightarrow> elem list" where
  "Remove e l = (if e \<in> set l then remove1 e l else l)"

definition Back :: "elem list \<Rightarrow> elem option" where
  "Back l = (if l = [] then None else Some (last l))"

text \<open>
  \<^verbatim>\<open>el.Value.(*entry)\<close>: the entry of an element. \<open>None\<close> is the run-time panic of
  the type assertion, for an address that no allocated element has.
\<close>

definition getEntry :: "elem \<Rightarrow> ('k, 'v, 'f) localCache \<Rightarrow> ('k, 'v) localEntry option" where
  "getEntry el c = (if el < length (heap c) then Some (heap c ! el) else None)"


section \<open>The local cache: operations\<close>

text \<open>
  Every operation returns \<open>None\<close> when it panics, and otherwise the cache as it leaves
  it together with its results. The calls of the removal listener that an operation
  makes are a result: the list of the pairs \<^verbatim>\<open>(key, value)\<close> it passes to
  \<^verbatim>\<open>c.onRemoval\<close>, in the order of the calls.
\<close>

text \<open>
  \<^verbatim>\<open>GetIfPresent\<close>, with the value of \<^verbatim>\<open>currentTime()\<close> as \<open>now\<close>. The result
  \<open>Some v\<close> is \<^verbatim>\<open>(v, true)\<close> and \<open>None\<close> is \<^verbatim>\<open>(nil, false)\<close>.
\<close>

definition GetIfPresent ::
  "'k \<Rightarrow> time \<Rightarrow> ('k, 'v, 'f) localCache \<Rightarrow> (('k, 'v, 'f) localCache \<times> 'v option) option"
where
  "GetIfPresent k now c =
     (case map_of (cache c) k of
        None \<Rightarrow> Some (c, None)
      | Some el \<Rightarrow>
          (case getEntry el c of
             None \<Rightarrow> None
           | Some en \<Rightarrow>
               let en = en\<lparr>lastAccess := now\<rparr>;
                   v = evalue en
               in Some (c\<lparr>heap := (heap c)[el := en],
                          entries := MoveToFront el (entries c)\<rparr>, Some v)))"

text \<open>\<^verbatim>\<open>removeOldest\<close>: the cache and the removed entry, \<open>None\<close> for nil.\<close>

definition removeOldest ::
  "('k, 'v, 'f) localCache \<Rightarrow>
   (('k, 'v, 'f) localCache \<times> ('k, 'v) localEntry option) option"
where
  "removeOldest c =
     (case Back (entries c) of
        None \<Rightarrow> Some (c, None)
      | Some el \<Rightarrow>
          let c = c\<lparr>entries := Remove el (entries c)\<rparr>
          in (case getEntry el c of
                None \<Rightarrow> None
              | Some en \<Rightarrow> Some (c\<lparr>cache := AList.delete (ekey en) (cache c)\<rparr>, Some en)))"

text \<open>
  \<^verbatim>\<open>Put\<close>. The key is looked up twice, as in the source: under the read lock, and
  again under the write lock before a new element is made.
\<close>

definition Put ::
  "'k \<Rightarrow> 'v \<Rightarrow> time \<Rightarrow> ('k, 'v, 'f) localCache \<Rightarrow>
   (('k, 'v, 'f) localCache \<times> ('k \<times> 'v) list) option"
where
  "Put k v now c =
     (case map_of (cache c) k of
        Some el \<Rightarrow>
          (case getEntry el c of
             None \<Rightarrow> None
           | Some en \<Rightarrow>
               let en = en\<lparr>evalue := v, lastAccess := now\<rparr>
               in Some (c\<lparr>heap := (heap c)[el := en],
                          entries := MoveToFront el (entries c)\<rparr>, []))
      | None \<Rightarrow>
          let en = \<lparr>ekey = k, evalue = v, lastAccess = now\<rparr>
          in (case (case map_of (cache c) k of
                      Some el \<Rightarrow>
                        Some (c\<lparr>heap := (heap c)[el := en],
                                entries := MoveToFront el (entries c)\<rparr>, None)
                    | None \<Rightarrow>
                        let el = length (heap c);
                            c = c\<lparr>heap := heap c @ [en],
                                  entries := PushFront el (entries c)\<rparr>;
                            c = c\<lparr>cache := AList.update k el (cache c)\<rparr>
                        in if maximumSize c > 0 \<and> int (length (entries c)) > maximumSize c
                           then removeOldest c
                           else Some (c, None)) of
                None \<Rightarrow> None
              | Some (c, remEn) \<Rightarrow>
                  (case (onRemoval c, remEn) of
                     (Some f, Some r) \<Rightarrow> Some (c, [(ekey r, evalue r)])
                   | _ \<Rightarrow> Some (c, []))))"

text \<open>\<^verbatim>\<open>Invalidate\<close>.\<close>

definition Invalidate ::
  "'k \<Rightarrow> ('k, 'v, 'f) localCache \<Rightarrow> (('k, 'v, 'f) localCache \<times> ('k \<times> 'v) list) option"
where
  "Invalidate k c =
     (case map_of (cache c) k of
        None \<Rightarrow> Some (c, [])
      | Some el \<Rightarrow>
          let c = c\<lparr>entries := Remove el (entries c)\<rparr>;
              c = c\<lparr>cache := AList.delete k (cache c)\<rparr>
          in (case onRemoval c of
                None \<Rightarrow> Some (c, [])
              | Some f \<Rightarrow>
                  (case getEntry el c of
                     None \<Rightarrow> None
                   | Some en \<Rightarrow> Some (c, [(ekey en, evalue en)]))))"

text \<open>
  The loop of \<^verbatim>\<open>InvalidateAll\<close> over the old map: one call of the listener for each
  pair.
\<close>

fun notifyAll ::
  "('k \<times> elem) list \<Rightarrow> ('k, 'v, 'f) localCache \<Rightarrow> ('k \<times> 'v) list option"
where
  "notifyAll [] c = Some []"
| "notifyAll ((k, el) # oldCache) c =
     (case getEntry el c of
        None \<Rightarrow> None
      | Some en \<Rightarrow>
          (case notifyAll oldCache c of
             None \<Rightarrow> None
           | Some calls \<Rightarrow> Some ((ekey en, evalue en) # calls)))"

definition InvalidateAll ::
  "('k, 'v, 'f) localCache \<Rightarrow> (('k, 'v, 'f) localCache \<times> ('k \<times> 'v) list) option"
where
  "InvalidateAll c =
     (let oldCache = cache c;
          c = c\<lparr>cache := [], entries := []\<rparr>
      in (case onRemoval c of
            None \<Rightarrow> Some (c, [])
          | Some f \<Rightarrow>
              (case notifyAll oldCache c of
                 None \<Rightarrow> None
               | Some calls \<Rightarrow> Some (c, calls))))"

text \<open>
  Construction. An \<^verbatim>\<open>Option\<close> is a function on the cache under construction;
  \<^verbatim>\<open>New\<close> applies the options in their order to \<^verbatim>\<open>newLocalCache()\<close>.
\<close>

definition WithMaximumSize ::
  "int \<Rightarrow> ('k, 'v, 'f) localCache \<Rightarrow> ('k, 'v, 'f) localCache" where
  "WithMaximumSize sz = (\<lambda>c. c\<lparr>maximumSize := sz\<rparr>)"

definition WithRemovalListener ::
  "'f option \<Rightarrow> ('k, 'v, 'f) localCache \<Rightarrow> ('k, 'v, 'f) localCache" where
  "WithRemovalListener f = (\<lambda>c. c\<lparr>onRemoval := f\<rparr>)"

definition New ::
  "(('k, 'v, 'f) localCache \<Rightarrow> ('k, 'v, 'f) localCache) list \<Rightarrow> ('k, 'v, 'f) localCache"
where
  "New options = foldl (\<lambda>c opt. opt c) newLocalCache options"

text \<open>The options that the source offers.\<close>

inductive api_option :: "(('k, 'v, 'f) localCache \<Rightarrow> ('k, 'v, 'f) localCache) \<Rightarrow> bool" where
  "api_option (WithMaximumSize sz)"
| "api_option (WithRemovalListener f)"


section \<open>Sequences of calls\<close>

text \<open>
  A client's calls, each with the time that \<^verbatim>\<open>currentTime()\<close> returns in it where
  the method reads the clock. \<open>step\<close> is one call; \<open>run\<close> is a sequence of calls
  from a cache, with the calls of the listener made by all of them in order.
\<close>

datatype ('k, 'v) call =
  CallPut 'k 'v time
| CallGet 'k time
| CallInvalidate 'k
| CallInvalidateAll

fun step ::
  "('k, 'v) call \<Rightarrow> ('k, 'v, 'f) localCache \<Rightarrow>
   (('k, 'v, 'f) localCache \<times> ('k \<times> 'v) list) option"
where
  "step (CallPut k v now) c = Put k v now c"
| "step (CallGet k now) c =
     (case GetIfPresent k now c of None \<Rightarrow> None | Some (c, r) \<Rightarrow> Some (c, []))"
| "step (CallInvalidate k) c = Invalidate k c"
| "step CallInvalidateAll c = InvalidateAll c"

fun run ::
  "('k, 'v) call list \<Rightarrow> ('k, 'v, 'f) localCache \<Rightarrow>
   (('k, 'v, 'f) localCache \<times> ('k \<times> 'v) list) option"
where
  "run [] c = Some (c, [])"
| "run (x # xs) c =
     (case step x c of
        None \<Rightarrow> None
      | Some (c1, fired) \<Rightarrow>
          (case run xs c1 of
             None \<Rightarrow> None
           | Some (c2, log) \<Rightarrow> Some (c2, fired @ log)))"

text \<open>
  The value that the cache holds for a key: the value of the entry of the element that
  the map gives for the key.
\<close>

definition lookup :: "('k, 'v, 'f) localCache \<Rightarrow> 'k \<Rightarrow> 'v option" where
  "lookup c k =
     (case map_of (cache c) k of
        None \<Rightarrow> None
      | Some el \<Rightarrow> map_option evalue (getEntry el c))"

text \<open>
  The representation invariant. The map has one pair for each of its keys and sends
  different keys to different elements; the elements of the map are the elements of
  the list, each of them once in the list; and the element of a key is allocated and
  holds an entry with that key.
\<close>

definition wf :: "('k, 'v, 'f) localCache \<Rightarrow> bool" where
  "wf c \<longleftrightarrow>
     distinct (map fst (cache c)) \<and>
     distinct (map snd (cache c)) \<and>
     distinct (entries c) \<and>
     set (map snd (cache c)) = set (entries c) \<and>
     list_all (\<lambda>(k, el). el < length (heap c) \<and> ekey (heap c ! el) = k) (cache c)"

text \<open>The bound of the configured maximum size on the number of elements of the list.\<close>

definition within :: "('k, 'v, 'f) localCache \<Rightarrow> bool" where
  "within c \<longleftrightarrow> int (length (entries c)) \<le> maximumSize c"

text \<open>
  Following the words of the specification: the keys ever put and not invalidated since,
  after a sequence of calls, from the set of the keys at its start.
\<close>

fun keys_after :: "'k set \<Rightarrow> ('k, 'v) call list \<Rightarrow> 'k set" where
  "keys_after S [] = S"
| "keys_after S (CallPut k v now # xs) = keys_after (insert k S) xs"
| "keys_after S (CallGet k now # xs) = keys_after S xs"
| "keys_after S (CallInvalidate k # xs) = keys_after (S - {k}) xs"
| "keys_after S (CallInvalidateAll # xs) = keys_after {} xs"

text \<open>
  Following the words of the specification: the value last stored for each key by the
  \<^verbatim>\<open>Put\<close> calls of a sequence, from the values stored at its start.
\<close>

fun stored :: "('k \<rightharpoonup> 'v) \<Rightarrow> ('k, 'v) call list \<Rightarrow> ('k \<rightharpoonup> 'v)" where
  "stored m [] = m"
| "stored m (CallPut k v now # xs) = stored (m(k \<mapsto> v)) xs"
| "stored m (CallGet k now # xs) = stored m xs"
| "stored m (CallInvalidate k # xs) = stored m xs"
| "stored m (CallInvalidateAll # xs) = stored m xs"


section \<open>The local cache with the list as container/list lays it out\<close>

text \<open>
  The definitions above take each method as one step. \<^verbatim>\<open>Put\<close> is not one step when it
  finds its key: it reads the map under the read lock (lines 66 to 68), releases it, and
  only then takes \<^verbatim>\<open>entriesMu\<close> to write the entry and move the element (lines 71 to
  76), so another method can run between the two. What the second part does to an element
  that has left the list in between depends on the fields of the element, so the list is
  modelled here field by field, after the Go library: a ring through the sentinel
  \<^verbatim>\<open>root\<close>, the counter \<^verbatim>\<open>len\<close>, and for each element its \<^verbatim>\<open>next\<close>, \<^verbatim>\<open>prev\<close>,
  \<^verbatim>\<open>list\<close> and \<^verbatim>\<open>Value\<close>.

  A pointer to a list node is \<open>Root\<close> for \<^verbatim>\<open>&l.root\<close> or \<open>Node e\<close> for the element at
  the address \<open>e\<close>; \<open>None\<close> is nil.
\<close>

datatype node = Root | Node elem

text \<open>
  \<^verbatim>\<open>list.Element\<close>, with the fields \<^verbatim>\<open>next\<close>, \<^verbatim>\<open>prev\<close>, \<^verbatim>\<open>list\<close> as \<open>enext\<close>,
  \<open>eprev\<close>, \<open>elist\<close>. The field \<open>elist\<close> is true when \<^verbatim>\<open>e.list\<close> is the list of the
  cache, the only list there is.
\<close>

record ('k, 'v) Element =
  enext :: "node option"
  eprev :: "node option"
  elist :: bool
  Value :: "('k, 'v) localEntry"

text \<open>
  \<^verbatim>\<open>localCache\<close> once more, its fields with the prefix \<open>l_\<close>; the list
  \<^verbatim>\<open>entries\<close> is \<open>root_next\<close>, \<open>root_prev\<close> (the two pointers of \<^verbatim>\<open>root\<close>) and
  \<open>len\<close>; \<open>store\<close> holds the elements ever allocated, by address.
\<close>

record ('k, 'v, 'f) linkedCache =
  l_maximumSize :: int
  l_onRemoval :: "'f option"
  l_cache :: "('k \<times> elem) list"
  root_next :: "node option"
  root_prev :: "node option"
  len :: int
  store :: "('k, 'v) Element list"

text \<open>Reading and writing the fields through a pointer to a node.\<close>

definition next_of :: "node \<Rightarrow> ('k, 'v, 'f) linkedCache \<Rightarrow> node option" where
  "next_of x c =
     (case x of
        Root \<Rightarrow> root_next c
      | Node e \<Rightarrow> if e < length (store c) then enext (store c ! e) else None)"

definition prev_of :: "node \<Rightarrow> ('k, 'v, 'f) linkedCache \<Rightarrow> node option" where
  "prev_of x c =
     (case x of
        Root \<Rightarrow> root_prev c
      | Node e \<Rightarrow> if e < length (store c) then eprev (store c ! e) else None)"

definition set_next ::
  "node \<Rightarrow> node option \<Rightarrow> ('k, 'v, 'f) linkedCache \<Rightarrow> ('k, 'v, 'f) linkedCache" where
  "set_next x y c =
     (case x of
        Root \<Rightarrow> c\<lparr>root_next := y\<rparr>
      | Node e \<Rightarrow> c\<lparr>store := (store c)[e := (store c ! e)\<lparr>enext := y\<rparr>]\<rparr>)"

definition set_prev ::
  "node \<Rightarrow> node option \<Rightarrow> ('k, 'v, 'f) linkedCache \<Rightarrow> ('k, 'v, 'f) linkedCache" where
  "set_prev x y c =
     (case x of
        Root \<Rightarrow> c\<lparr>root_prev := y\<rparr>
      | Node e \<Rightarrow> c\<lparr>store := (store c)[e := (store c ! e)\<lparr>eprev := y\<rparr>]\<rparr>)"

definition in_list :: "elem \<Rightarrow> ('k, 'v, 'f) linkedCache \<Rightarrow> bool" where
  "in_list e c \<longleftrightarrow> e < length (store c) \<and> elist (store c ! e)"

definition set_list ::
  "elem \<Rightarrow> bool \<Rightarrow> ('k, 'v, 'f) linkedCache \<Rightarrow> ('k, 'v, 'f) linkedCache" where
  "set_list e b c = c\<lparr>store := (store c)[e := (store c ! e)\<lparr>elist := b\<rparr>]\<rparr>"

definition entry_of :: "elem \<Rightarrow> ('k, 'v, 'f) linkedCache \<Rightarrow> ('k, 'v) localEntry option" where
  "entry_of e c = (if e < length (store c) then Some (Value (store c ! e)) else None)"

definition set_Value ::
  "elem \<Rightarrow> ('k, 'v) localEntry \<Rightarrow> ('k, 'v, 'f) linkedCache \<Rightarrow> ('k, 'v, 'f) linkedCache" where
  "set_Value e en c = c\<lparr>store := (store c)[e := (store c ! e)\<lparr>Value := en\<rparr>]\<rparr>"

text \<open>
  The functions of container/list, statement by statement. A result \<open>None\<close> is the
  panic of a write through a nil pointer. \<^verbatim>\<open>Init\<close> resets \<^verbatim>\<open>root\<close> and \<^verbatim>\<open>len\<close>
  and touches no element: an element that was in the list keeps its \<^verbatim>\<open>list\<close>,
  \<^verbatim>\<open>next\<close> and \<^verbatim>\<open>prev\<close>.
\<close>

definition list_Init :: "('k, 'v, 'f) linkedCache \<Rightarrow> ('k, 'v, 'f) linkedCache" where
  "list_Init c = c\<lparr>root_next := Some Root, root_prev := Some Root, len := 0\<rparr>"

definition list_insert ::
  "elem \<Rightarrow> node \<Rightarrow> ('k, 'v, 'f) linkedCache \<Rightarrow> ('k, 'v, 'f) linkedCache option" where
  "list_insert e at c =
     (let c = set_prev (Node e) (Some at) c;
          c = set_next (Node e) (next_of at c) c
      in (case prev_of (Node e) c of
            None \<Rightarrow> None
          | Some p \<Rightarrow>
              let c = set_next p (Some (Node e)) c
              in (case next_of (Node e) c of
                    None \<Rightarrow> None
                  | Some n \<Rightarrow>
                      let c = set_prev n (Some (Node e)) c;
                          c = set_list e True c
                      in Some (c\<lparr>len := len c + 1\<rparr>))))"

definition list_remove ::
  "elem \<Rightarrow> ('k, 'v, 'f) linkedCache \<Rightarrow> ('k, 'v, 'f) linkedCache option" where
  "list_remove e c =
     (case prev_of (Node e) c of
        None \<Rightarrow> None
      | Some p \<Rightarrow>
          let c = set_next p (next_of (Node e) c) c
          in (case next_of (Node e) c of
                None \<Rightarrow> None
              | Some n \<Rightarrow>
                  let c = set_prev n (prev_of (Node e) c) c;
                      c = set_next (Node e) None c;
                      c = set_prev (Node e) None c;
                      c = set_list e False c
                  in Some (c\<lparr>len := len c - 1\<rparr>)))"

definition list_move ::
  "elem \<Rightarrow> node \<Rightarrow> ('k, 'v, 'f) linkedCache \<Rightarrow> ('k, 'v, 'f) linkedCache option" where
  "list_move e at c =
     (if Node e = at then Some c
      else (case prev_of (Node e) c of
              None \<Rightarrow> None
            | Some p \<Rightarrow>
                let c = set_next p (next_of (Node e) c) c
                in (case next_of (Node e) c of
                      None \<Rightarrow> None
                    | Some n \<Rightarrow>
                        let c = set_prev n (prev_of (Node e) c) c;
                            c = set_prev (Node e) (Some at) c;
                            c = set_next (Node e) (next_of at c) c
                        in (case prev_of (Node e) c of
                              None \<Rightarrow> None
                            | Some p \<Rightarrow>
                                let c = set_next p (Some (Node e)) c
                                in (case next_of (Node e) c of
                                      None \<Rightarrow> None
                                    | Some n \<Rightarrow> Some (set_prev n (Some (Node e)) c))))))"

definition list_PushFront ::
  "('k, 'v) localEntry \<Rightarrow> ('k, 'v, 'f) linkedCache \<Rightarrow>
   (('k, 'v, 'f) linkedCache \<times> elem) option" where
  "list_PushFront en c =
     (let c = (if root_next c = None then list_Init c else c);
          e = length (store c);
          c = c\<lparr>store := store c @ [\<lparr>enext = None, eprev = None, elist = False, Value = en\<rparr>]\<rparr>
      in (case list_insert e Root c of None \<Rightarrow> None | Some c \<Rightarrow> Some (c, e)))"

definition list_MoveToFront ::
  "elem \<Rightarrow> ('k, 'v, 'f) linkedCache \<Rightarrow> ('k, 'v, 'f) linkedCache option" where
  "list_MoveToFront e c =
     (if in_list e c
      then (if root_next c = Some (Node e) then Some c else list_move e Root c)
      else Some c)"

definition list_Remove ::
  "elem \<Rightarrow> ('k, 'v, 'f) linkedCache \<Rightarrow> ('k, 'v, 'f) linkedCache option" where
  "list_Remove e c = (if in_list e c then list_remove e c else Some c)"

definition list_Back :: "('k, 'v, 'f) linkedCache \<Rightarrow> node option" where
  "list_Back c = (if len c = 0 then None else root_prev c)"

text \<open>
  A cache that \<^verbatim>\<open>New\<close> returns, with its list laid out as \<^verbatim>\<open>c.entries.Init()\<close> leaves
  it.
\<close>

definition linked :: "('k, 'v, 'f) localCache \<Rightarrow> ('k, 'v, 'f) linkedCache" where
  "linked c =
     list_Init \<lparr>l_maximumSize = maximumSize c, l_onRemoval = onRemoval c, l_cache = [],
       root_next = None, root_prev = None, len = 0, store = []\<rparr>"

text \<open>
  \<^verbatim>\<open>Put\<close> in its parts: \<open>PutRead\<close> is the lookup under the read lock (lines 66 to 68),
  \<open>PutHit\<close> the update of the element found, under \<^verbatim>\<open>entriesMu\<close> (lines 70 to 77),
  \<open>PutMiss\<close> the rest, under both locks, with the call of the listener (lines 80 to
  106). \<open>Put_linked\<close> is a \<^verbatim>\<open>Put\<close> with no other call between its parts.
\<close>

definition PutRead :: "'k \<Rightarrow> ('k, 'v, 'f) linkedCache \<Rightarrow> elem option" where
  "PutRead k c = map_of (l_cache c) k"

definition PutHit ::
  "elem \<Rightarrow> 'v \<Rightarrow> time \<Rightarrow> ('k, 'v, 'f) linkedCache \<Rightarrow>
   (('k, 'v, 'f) linkedCache \<times> ('k \<times> 'v) list) option" where
  "PutHit el v now c =
     (case entry_of el c of
        None \<Rightarrow> None
      | Some en \<Rightarrow>
          let c = set_Value el (en\<lparr>evalue := v, lastAccess := now\<rparr>) c
          in (case list_MoveToFront el c of None \<Rightarrow> None | Some c \<Rightarrow> Some (c, [])))"

definition removeOldest_linked ::
  "('k, 'v, 'f) linkedCache \<Rightarrow>
   (('k, 'v, 'f) linkedCache \<times> ('k, 'v) localEntry option) option" where
  "removeOldest_linked c =
     (case list_Back c of
        None \<Rightarrow> Some (c, None)
      | Some Root \<Rightarrow> None
      | Some (Node el) \<Rightarrow>
          (case list_Remove el c of
             None \<Rightarrow> None
           | Some c \<Rightarrow>
               (case entry_of el c of
                  None \<Rightarrow> None
                | Some en \<Rightarrow>
                    Some (c\<lparr>l_cache := AList.delete (ekey en) (l_cache c)\<rparr>, Some en))))"

definition PutMiss ::
  "'k \<Rightarrow> 'v \<Rightarrow> time \<Rightarrow> ('k, 'v, 'f) linkedCache \<Rightarrow>
   (('k, 'v, 'f) linkedCache \<times> ('k \<times> 'v) list) option" where
  "PutMiss k v now c =
     (let en = \<lparr>ekey = k, evalue = v, lastAccess = now\<rparr>
      in (case (case map_of (l_cache c) k of
                  Some el \<Rightarrow>
                    (case list_MoveToFront el (set_Value el en c) of
                       None \<Rightarrow> None
                     | Some c \<Rightarrow> Some (c, None))
                | None \<Rightarrow>
                    (case list_PushFront en c of
                       None \<Rightarrow> None
                     | Some (c, el) \<Rightarrow>
                         let c = c\<lparr>l_cache := AList.update k el (l_cache c)\<rparr>
                         in if l_maximumSize c > 0 \<and> len c > l_maximumSize c
                            then removeOldest_linked c
                            else Some (c, None))) of
            None \<Rightarrow> None
          | Some (c, remEn) \<Rightarrow>
              (case (l_onRemoval c, remEn) of
                 (Some f, Some r) \<Rightarrow> Some (c, [(ekey r, evalue r)])
               | _ \<Rightarrow> Some (c, []))))"

definition Put_linked ::
  "'k \<Rightarrow> 'v \<Rightarrow> time \<Rightarrow> ('k, 'v, 'f) linkedCache \<Rightarrow>
   (('k, 'v, 'f) linkedCache \<times> ('k \<times> 'v) list) option" where
  "Put_linked k v now c =
     (case PutRead k c of
        Some el \<Rightarrow> PutHit el v now c
      | None \<Rightarrow> PutMiss k v now c)"

text \<open>\<^verbatim>\<open>InvalidateAll\<close>, which holds both locks for all but its calls of the listener.\<close>

fun notifyAll_linked ::
  "('k \<times> elem) list \<Rightarrow> ('k, 'v, 'f) linkedCache \<Rightarrow> ('k \<times> 'v) list option" where
  "notifyAll_linked [] c = Some []"
| "notifyAll_linked ((k, el) # oldCache) c =
     (case entry_of el c of
        None \<Rightarrow> None
      | Some en \<Rightarrow>
          (case notifyAll_linked oldCache c of
             None \<Rightarrow> None
           | Some calls \<Rightarrow> Some ((ekey en, evalue en) # calls)))"

definition InvalidateAll_linked ::
  "('k, 'v, 'f) linkedCache \<Rightarrow> (('k, 'v, 'f) linkedCache \<times> ('k \<times> 'v) list) option" where
  "InvalidateAll_linked c =
     (let oldCache = l_cache c;
          c = c\<lparr>l_cache := []\<rparr>;
          c = list_Init c
      in (case l_onRemoval c of
            None \<Rightarrow> Some (c, [])
          | Some f \<Rightarrow>
              (case notifyAll_linked oldCache c of
                 None \<Rightarrow> None
               | Some calls \<Rightarrow> Some (c, calls))))"


section \<open>Refresh coordination\<close>

lemma lockEntry_times_length: "length (fst (lockEntry_times n en)) = n"
  by (induction n arbitrary: en) (simp_all add: lockEntry_def Let_def case_prod_unfold)

lemma lockEntry_times_refreshing:
  "isRefreshing en \<Longrightarrow> fst (lockEntry_times n en) = replicate n False"
  by (induction n arbitrary: en) (simp_all add: lockEntry_def Let_def case_prod_unfold)

text \<open>
  Claim C3. \<^verbatim>\<open>lockEntry\<close> returns true exactly when the entry was not refreshing at
  the call, and leaves it refreshing. After a call that returned true, any number of
  further \<^verbatim>\<open>lockEntry\<close> calls with no \<^verbatim>\<open>unlockEntry\<close> in between all return false.
  After \<^verbatim>\<open>unlockEntry\<close> the next \<^verbatim>\<open>lockEntry\<close> returns true again.
\<close>

theorem lockEntry_exclusion:
  "fst (lockEntry en) = (\<not> isRefreshing en) \<and>
   isRefreshing (snd (lockEntry en)) \<and>
   (fst (lockEntry en) \<longrightarrow>
      fst (lockEntry_times n (snd (lockEntry en))) = replicate n False \<and>
      fst (lockEntry (unlockEntry (snd (lockEntry_times n (snd (lockEntry en)))))))"
proof -
  have r: "isRefreshing (snd (lockEntry en))"
    by (simp add: lockEntry_def)
  have "fst (lockEntry_times n (snd (lockEntry en))) = replicate n False"
    using r by (rule lockEntry_times_refreshing)
  moreover have "fst (lockEntry (unlockEntry e))" for e :: "('a, 'b, 'c) entry"
    by (simp add: lockEntry_def unlockEntry_def)
  moreover have "fst (lockEntry en) = (\<not> isRefreshing en)"
    by (simp add: lockEntry_def)
  ultimately show ?thesis using r by blast
qed

theorem lockEntry_exclusion_witness:
  "fst (lockEntry \<lparr>key = (1::nat), val = (2::nat), accessed = 0, updated = 0, listID = (),
      hash = 7, isRefreshing = False\<rparr>) \<and>
   fst (lockEntry_times 3 (snd (lockEntry \<lparr>key = (1::nat), val = (2::nat), accessed = 0,
      updated = 0, listID = (), hash = 7, isRefreshing = False\<rparr>)))
     = [False, False, False] \<and>
   fst (lockEntry (unlockEntry (snd (lockEntry_times 3 (snd (lockEntry
      \<lparr>key = (1::nat), val = (2::nat), accessed = 0, updated = 0, listID = (),
       hash = 7, isRefreshing = False\<rparr>))))))"
  using lockEntry_exclusion [of "\<lparr>key = (1::nat), val = (2::nat), accessed = 0, updated = 0,
      listID = (), hash = 7, isRefreshing = False\<rparr>" 3]
  by (simp add: lockEntry_def numeral_3_eq_3)


section \<open>Unconditional reset of the refresh state\<close>

text \<open>
  Claim C9. \<^verbatim>\<open>unlockEntry\<close> sets the refresh state to idle whatever it was, also
  with no \<^verbatim>\<open>lockEntry\<close> before it; it changes no other field; a second call in a row
  changes nothing; and it has no failing path (it is a total function that returns the
  entry), so the next \<^verbatim>\<open>lockEntry\<close> succeeds.
\<close>

theorem unlockEntry_idempotent:
  "isRefreshing (unlockEntry en) = False \<and>
   unlockEntry en = en\<lparr>isRefreshing := False\<rparr> \<and>
   unlockEntry (unlockEntry en) = unlockEntry en \<and>
   fst (lockEntry (unlockEntry en))"
  by (simp add: unlockEntry_def lockEntry_def)


section \<open>Policy selection\<close>

text \<open>
  Claim C7, as stated, fails: the empty name is none of \<^verbatim>\<open>lru\<close>, \<^verbatim>\<open>slru\<close>,
  \<^verbatim>\<open>tinylfu\<close>, and \<^verbatim>\<open>newPolicy\<close> returns the segmented LRU policy for it.
\<close>

theorem newPolicy_empty_name_counterexample:
  "'''' \<notin> {''lru'', ''slru'', ''tinylfu''} \<and> newPolicy '''' = Inr SlruCache"
  by (simp add: newPolicy_def)

text \<open>
  Claim C7, amended. For every name that is not the empty name, \<^verbatim>\<open>lru\<close>, \<^verbatim>\<open>slru\<close>
  or \<^verbatim>\<open>tinylfu\<close>, \<^verbatim>\<open>newPolicy\<close> panics with the message naming the policy and
  returns no policy; for each of these four names it returns a policy and does not
  panic, the empty name selecting the segmented LRU policy.
\<close>

theorem newPolicy_unknown_name_panics:
  "(name \<notin> {'''', ''lru'', ''slru'', ''tinylfu''} \<longrightarrow>
      newPolicy name = Inl (''cache: unsupported policy '' @ name)) \<and>
   (name \<in> {'''', ''lru'', ''slru'', ''tinylfu''} \<longrightarrow>
      (\<exists>p. newPolicy name = Inr p)) \<and>
   newPolicy '''' = Inr SlruCache"
  by (auto simp: newPolicy_def)

theorem newPolicy_unknown_name_panics_witness:
  "''fifo'' \<notin> {'''', ''lru'', ''slru'', ''tinylfu''} \<and>
   newPolicy ''fifo'' = Inl ''cache: unsupported policy fifo'' \<and>
   ''lru'' \<in> {'''', ''lru'', ''slru'', ''tinylfu''} \<and>
   (\<exists>p. newPolicy ''lru'' = Inr p)"
  using newPolicy_unknown_name_panics [of "''fifo''"]
    newPolicy_unknown_name_panics [of "''lru''"]
  by simp


section \<open>The local cache: the operations on a well-formed cache\<close>

lemma wf_lookupD:
  "wf c \<Longrightarrow> map_of (cache c) k = Some el \<Longrightarrow>
     el < length (heap c) \<and> ekey (heap c ! el) = k \<and> el \<in> set (entries c)"
proof -
  assume w: "wf c" and m: "map_of (cache c) k = Some el"
  from m have i: "(k, el) \<in> set (cache c)" by (rule map_of_SomeD)
  from w have "list_all (\<lambda>(k, el). el < length (heap c) \<and> ekey (heap c ! el) = k) (cache c)"
    by (simp add: wf_def)
  with i have "el < length (heap c) \<and> ekey (heap c ! el) = k"
    by (auto simp: list_all_iff)
  moreover from i have "el \<in> set (map snd (cache c))" by force
  with w have "el \<in> set (entries c)" by (simp add: wf_def)
  ultimately show ?thesis by simp
qed

lemma wf_entryD:
  assumes w: "wf c" and e: "el \<in> set (entries c)"
  shows "el < length (heap c) \<and> map_of (cache c) (ekey (heap c ! el)) = Some el"
proof -
  from w e have "el \<in> set (map snd (cache c))" by (simp add: wf_def)
  then obtain k where i: "(k, el) \<in> set (cache c)" by auto
  from w have d: "distinct (map fst (cache c))" by (simp add: wf_def)
  from d i have m: "map_of (cache c) k = Some el" by simp
  from wf_lookupD [OF w m] m show ?thesis by simp
qed

lemma alist_update_fresh:
  "map_of al k = None \<Longrightarrow> AList.update k v al = al @ [(k, v)]"
  by (induction al) (auto split: if_splits)

lemma alist_delete_snd:
  "distinct (map fst al) \<Longrightarrow> distinct (map snd al) \<Longrightarrow> (k, e) \<in> set al \<Longrightarrow>
     set (map snd (AList.delete k al)) = set (map snd al) - {e}"
  by (induction al) (auto simp: AList.delete_eq rev_image_eqI)

lemma alist_delete_distinct_snd:
  "distinct (map snd al) \<Longrightarrow> distinct (map snd (AList.delete k al))"
  by (induction al) (auto simp: AList.delete_eq)

lemma alist_delete_all:
  "list_all P al \<Longrightarrow> list_all P (AList.delete k al)"
  by (simp add: AList.delete_eq list_all_iff)

text \<open>The three cases of \<^verbatim>\<open>Put\<close>.\<close>

lemma Put_hit:
  assumes w: "wf c" and m: "map_of (cache c) k = Some el"
  shows "Put k v now c =
     Some (c\<lparr>heap := (heap c)[el := (heap c ! el)\<lparr>evalue := v, lastAccess := now\<rparr>],
             entries := el # remove1 el (entries c)\<rparr>, [])"
  using wf_lookupD [OF w m] m
  by (simp add: Put_def getEntry_def MoveToFront_def)

lemma Put_miss_room:
  assumes m: "map_of (cache c) k = None"
    and r: "\<not> (maximumSize c > 0 \<and> int (length (entries c)) + 1 > maximumSize c)"
  shows "Put k v now c =
     Some (c\<lparr>heap := heap c @ [\<lparr>ekey = k, evalue = v, lastAccess = now\<rparr>],
             entries := length (heap c) # entries c,
             cache := cache c @ [(k, length (heap c))]\<rparr>, [])"
  using m r
  by (auto simp add: Put_def PushFront_def Let_def alist_update_fresh split: option.splits)


lemma alist_delete_append_other:
  "k \<noteq> k' \<Longrightarrow> AList.delete k' (al @ [(k, v)]) = AList.delete k' al @ [(k, v)]"
  by (simp add: AList.delete_eq)

lemma remove1_last_distinct:
  "distinct l \<Longrightarrow> l \<noteq> [] \<Longrightarrow> remove1 (last l) l = butlast l"
  by (induction l) auto

lemma Put_miss_full:
  assumes w: "wf c" and m: "map_of (cache c) k = None"
    and p: "maximumSize c > 0" and f: "int (length (entries c)) + 1 > maximumSize c"
  shows "Put k v now c =
     Some (c\<lparr>heap := heap c @ [\<lparr>ekey = k, evalue = v, lastAccess = now\<rparr>],
             entries := length (heap c) # butlast (entries c),
             cache := AList.delete (ekey (heap c ! last (entries c))) (cache c)
                        @ [(k, length (heap c))]\<rparr>,
           case onRemoval c of
             None \<Rightarrow> []
           | Some f \<Rightarrow> [(ekey (heap c ! last (entries c)),
                          evalue (heap c ! last (entries c)))])"
proof -
  from p f have ne: "entries c \<noteq> []" by auto
  then have l: "last (entries c) \<in> set (entries c)" by simp
  from wf_entryD [OF w l]
  have lt: "last (entries c) < length (heap c)"
    and mo: "map_of (cache c) (ekey (heap c ! last (entries c))) = Some (last (entries c))"
    by simp_all
  from mo m have kk: "k \<noteq> ekey (heap c ! last (entries c))" by auto
  from w have d: "distinct (entries c)" by (simp add: wf_def)
  have rm: "remove1 (last (entries c)) (entries c) = butlast (entries c)"
    using d ne by (rule remove1_last_distinct)
  from lt have neq: "length (heap c) \<noteq> last (entries c)" by simp
  show ?thesis
    using m p f ne l lt kk rm neq
    by (simp add: Put_def PushFront_def Let_def alist_update_fresh removeOldest_def Back_def
        Remove_def getEntry_def nth_append alist_delete_append_other
        split: option.splits)
qed


lemma GetIfPresent_hit:
  assumes w: "wf c" and m: "map_of (cache c) k = Some el"
  shows "GetIfPresent k now c =
     Some (c\<lparr>heap := (heap c)[el := (heap c ! el)\<lparr>lastAccess := now\<rparr>],
             entries := el # remove1 el (entries c)\<rparr>, Some (evalue (heap c ! el)))"
  using wf_lookupD [OF w m] m
  by (simp add: GetIfPresent_def getEntry_def MoveToFront_def)

lemma GetIfPresent_miss:
  "map_of (cache c) k = None \<Longrightarrow> GetIfPresent k now c = Some (c, None)"
  by (simp add: GetIfPresent_def)

lemma Invalidate_hit:
  assumes w: "wf c" and m: "map_of (cache c) k = Some el"
  shows "Invalidate k c =
     Some (c\<lparr>entries := remove1 el (entries c), cache := AList.delete k (cache c)\<rparr>,
           case onRemoval c of None \<Rightarrow> [] | Some f \<Rightarrow> [(k, evalue (heap c ! el))])"
  using wf_lookupD [OF w m] m
  by (simp add: Invalidate_def getEntry_def Remove_def split: option.splits)

lemma Invalidate_miss:
  "map_of (cache c) k = None \<Longrightarrow> Invalidate k c = Some (c, [])"
  by (simp add: Invalidate_def)

lemma notifyAll_live:
  "list_all (\<lambda>(k, el). el < length (heap c) \<and> ekey (heap c ! el) = k) al \<Longrightarrow>
     notifyAll al c = Some (map (\<lambda>(k, el). (k, evalue (heap c ! el))) al)"
  by (induction al) (auto simp: getEntry_def)

lemma InvalidateAll_live:
  assumes w: "wf c"
  shows "InvalidateAll c =
     Some (c\<lparr>cache := [], entries := []\<rparr>,
           case onRemoval c of
             None \<Rightarrow> []
           | Some f \<Rightarrow> map (\<lambda>(k, el). (k, evalue (heap c ! el))) (cache c))"
proof -
  from w have "list_all (\<lambda>(k, el). el < length (heap c) \<and> ekey (heap c ! el) = k) (cache c)"
    by (simp add: wf_def)
  then have "notifyAll (cache c) (c\<lparr>cache := [], entries := []\<rparr>) =
      Some (map (\<lambda>(k, el). (k, evalue (heap c ! el))) (cache c))"
    using notifyAll_live [of "c\<lparr>cache := [], entries := []\<rparr>" "cache c"] by simp
  then show ?thesis
    by (simp add: InvalidateAll_def Let_def split: option.splits)
qed

text \<open>The invariant under the state changes of the operations.\<close>

lemma wf_touch:
  assumes w: "wf c" and e: "el \<in> set (entries c)" and k: "ekey en = ekey (heap c ! el)"
  shows "wf (c\<lparr>heap := (heap c)[el := en], entries := el # remove1 el (entries c)\<rparr>)"
proof -
  have "ekey ((heap c)[el := en] ! i) = ekey (heap c ! i)" for i
    using k by (cases "el < length (heap c)") (simp_all add: nth_list_update list_update_beyond)
  moreover from w have "distinct (entries c)" by (simp add: wf_def)
  moreover from e have "insert el (set (entries c) - {el}) = set (entries c)" by auto
  ultimately show ?thesis
    using w e by (simp add: wf_def)
qed

lemma wf_push:
  assumes w: "wf c" and m: "map_of (cache c) k = None" and k: "ekey en = k"
  shows "wf (c\<lparr>heap := heap c @ [en], entries := length (heap c) # entries c,
               cache := cache c @ [(k, length (heap c))]\<rparr>)"
proof -
  from w have a: "list_all (\<lambda>(k, el). el < length (heap c) \<and> ekey (heap c ! el) = k) (cache c)"
    by (simp add: wf_def)
  then have lt: "\<forall>e \<in> set (map snd (cache c)). e < length (heap c)"
    by (auto simp: list_all_iff)
  then have fr: "length (heap c) \<notin> set (map snd (cache c))" by auto
  from a have a': "list_all (\<lambda>(k, el). el < Suc (length (heap c)) \<and>
      ekey ((heap c @ [en]) ! el) = k) (cache c)"
    by (auto simp: list_all_iff nth_append)
  from m have nk: "k \<notin> set (map fst (cache c))"
    by (simp add: map_of_eq_None_iff)
  show ?thesis
    using w fr a' nk k unfolding wf_def by auto
qed

lemma wf_remove:
  assumes w: "wf c" and m: "map_of (cache c) k = Some el"
  shows "wf (c\<lparr>entries := remove1 el (entries c), cache := AList.delete k (cache c)\<rparr>)"
proof -
  from m have i: "(k, el) \<in> set (cache c)" by (rule map_of_SomeD)
  from w have d1: "distinct (map fst (cache c))" and d2: "distinct (map snd (cache c))"
    and d3: "distinct (entries c)" and s: "set (map snd (cache c)) = set (entries c)"
    and a: "list_all (\<lambda>(k, el). el < length (heap c) \<and> ekey (heap c ! el) = k) (cache c)"
    by (simp_all add: wf_def)
  have "set (map snd (AList.delete k (cache c))) = set (remove1 el (entries c))"
    using alist_delete_snd [OF d1 d2 i] s d3 by simp
  then show ?thesis
    using d1 d2 d3 a
    by (simp add: wf_def AList.distinct_delete alist_delete_distinct_snd alist_delete_all)
qed

lemma wf_clear: "wf (c\<lparr>cache := [], entries := []\<rparr>)"
  by (simp add: wf_def)

lemma wf_option: "api_option opt \<Longrightarrow> wf (opt c) = wf c"
  by (erule api_option.cases) (simp_all add: WithMaximumSize_def WithRemovalListener_def wf_def)

lemma wf_New: "list_all api_option opts \<Longrightarrow> wf (New opts)"
proof -
  have "wf c \<Longrightarrow> list_all api_option opts \<Longrightarrow> wf (foldl (\<lambda>c opt. opt c) c opts)"
    for c :: "('a, 'b, 'c) localCache"
    by (induction opts arbitrary: c) (simp_all add: wf_option)
  moreover have "wf (newLocalCache :: ('a, 'b, 'c) localCache)"
    by (simp add: wf_def newLocalCache_def)
  ultimately show "list_all api_option opts \<Longrightarrow> wf (New opts)"
    by (simp add: New_def)
qed


text \<open>What the cache holds for a key, under the state changes.\<close>

lemma lookup_wf:
  "wf c \<Longrightarrow> lookup c k = map_option (\<lambda>el. evalue (heap c ! el)) (map_of (cache c) k)"
  by (auto simp: lookup_def getEntry_def split: option.splits dest: wf_lookupD)

lemma lookup_touch:
  assumes w: "wf c" and m: "map_of (cache c) k = Some el"
    and k: "ekey en = ekey (heap c ! el)"
  shows "lookup (c\<lparr>heap := (heap c)[el := en], entries := el # remove1 el (entries c)\<rparr>) k' =
     (if k' = k then Some (evalue en) else lookup c k')"
proof -
  let ?c = "c\<lparr>heap := (heap c)[el := en], entries := el # remove1 el (entries c)\<rparr>"
  from wf_lookupD [OF w m] have lt: "el < length (heap c)" and e: "el \<in> set (entries c)"
    and kk: "ekey (heap c ! el) = k" by simp_all
  have w': "wf ?c" using w e k by (rule wf_touch)
  have "el' \<noteq> el" if "map_of (cache c) k' = Some el'" "k' \<noteq> k" for el'
    using wf_lookupD [OF w that(1)] kk that(2) by auto
  then show ?thesis
    using lt m
    by (cases "map_of (cache c) k'") (auto simp: lookup_wf [OF w'] lookup_wf [OF w])
qed

lemma lookup_push:
  assumes w: "wf c" and m: "map_of (cache c) k = None"
  shows "lookup (c\<lparr>heap := heap c @ [en], entries := es,
                   cache := cache c @ [(k, length (heap c))]\<rparr>) k' =
     (if k' = k then Some (evalue en) else lookup c k')"
proof -
  have "el' < length (heap c)" if "map_of (cache c) k' = Some el'" for el'
    using wf_lookupD [OF w that] by simp
  then show ?thesis
    using m
    by (auto simp: lookup_def getEntry_def map_add_def nth_append split: option.splits)
qed

lemma lookup_remove:
  "lookup (c\<lparr>entries := es, cache := AList.delete k (cache c)\<rparr>) k' =
     (if k' = k then None else lookup c k')"
  by (cases "map_of (cache c) k'") (simp_all add: lookup_def getEntry_def AList.delete_conv')

lemma lookup_clear: "lookup (c\<lparr>cache := [], entries := []\<rparr>) k = None"
  by (simp add: lookup_def)


lemma evict_as_remove_push:
  assumes w: "wf c" and m: "map_of (cache c) k = None" and ne: "entries c \<noteq> []"
  shows "\<exists>c1. wf c1 \<and> map_of (cache c1) k = None \<and> heap c1 = heap c \<and>
      (\<forall>k'. lookup c1 k' =
         (if k' = ekey (heap c ! last (entries c)) then None else lookup c k')) \<and>
      c\<lparr>heap := heap c @ [en], entries := length (heap c) # butlast (entries c),
        cache := AList.delete (ekey (heap c ! last (entries c))) (cache c)
                   @ [(k, length (heap c))]\<rparr> =
      c1\<lparr>heap := heap c1 @ [en], entries := length (heap c1) # entries c1,
         cache := cache c1 @ [(k, length (heap c1))]\<rparr>"
proof -
  let ?old = "last (entries c)"
  let ?ko = "ekey (heap c ! ?old)"
  let ?c1 = "c\<lparr>entries := remove1 ?old (entries c), cache := AList.delete ?ko (cache c)\<rparr>"
  from ne have l: "?old \<in> set (entries c)" by simp
  from wf_entryD [OF w l] have mo: "map_of (cache c) ?ko = Some ?old" by simp
  from w have d: "distinct (entries c)" by (simp add: wf_def)
  have rm: "remove1 ?old (entries c) = butlast (entries c)"
    using d ne by (rule remove1_last_distinct)
  have "wf ?c1" using w mo by (rule wf_remove)
  moreover have "map_of (cache ?c1) k = None" using m by (simp add: AList.delete_conv')
  moreover have "\<forall>k'. lookup ?c1 k' = (if k' = ?ko then None else lookup c k')"
    by (simp add: lookup_remove)
  ultimately show ?thesis
    using rm by (intro exI [of _ ?c1]) simp
qed

lemma wf_evict:
  assumes w: "wf c" and m: "map_of (cache c) k = None" and ne: "entries c \<noteq> []"
    and k: "ekey en = k"
  shows "wf (c\<lparr>heap := heap c @ [en], entries := length (heap c) # butlast (entries c),
               cache := AList.delete (ekey (heap c ! last (entries c))) (cache c)
                          @ [(k, length (heap c))]\<rparr>)"
proof -
  from evict_as_remove_push [OF w m ne, of en] obtain c1 where
    w1: "wf c1" and m1: "map_of (cache c1) k = None" and
    eq: "c\<lparr>heap := heap c @ [en], entries := length (heap c) # butlast (entries c),
        cache := AList.delete (ekey (heap c ! last (entries c))) (cache c)
                   @ [(k, length (heap c))]\<rparr> =
      c1\<lparr>heap := heap c1 @ [en], entries := length (heap c1) # entries c1,
         cache := cache c1 @ [(k, length (heap c1))]\<rparr>"
    by blast
  show ?thesis unfolding eq using w1 m1 k by (rule wf_push)
qed

lemma lookup_evict:
  assumes w: "wf c" and m: "map_of (cache c) k = None" and ne: "entries c \<noteq> []"
  shows "lookup (c\<lparr>heap := heap c @ [en], entries := length (heap c) # butlast (entries c),
               cache := AList.delete (ekey (heap c ! last (entries c))) (cache c)
                          @ [(k, length (heap c))]\<rparr>) k' =
     (if k' = k then Some (evalue en)
      else if k' = ekey (heap c ! last (entries c)) then None else lookup c k')"
proof -
  from evict_as_remove_push [OF w m ne, of en] obtain c1 where
    w1: "wf c1" and m1: "map_of (cache c1) k = None" and
    l1: "\<And>k'. lookup c1 k' =
         (if k' = ekey (heap c ! last (entries c)) then None else lookup c k')" and
    eq: "c\<lparr>heap := heap c @ [en], entries := length (heap c) # butlast (entries c),
        cache := AList.delete (ekey (heap c ! last (entries c))) (cache c)
                   @ [(k, length (heap c))]\<rparr> =
      c1\<lparr>heap := heap c1 @ [en], entries := length (heap c1) # entries c1,
         cache := cache c1 @ [(k, length (heap c1))]\<rparr>"
    by blast
  show ?thesis unfolding eq by (simp add: lookup_push [OF w1 m1] l1)
qed

text \<open>The cases of Put, as a rule.\<close>

lemma Put_cases:
  assumes w: "wf c"
  obtains
    (hit) el where "map_of (cache c) k = Some el"
      "Put k v now c =
         Some (c\<lparr>heap := (heap c)[el := (heap c ! el)\<lparr>evalue := v, lastAccess := now\<rparr>],
                 entries := el # remove1 el (entries c)\<rparr>, [])"
  | (room) "map_of (cache c) k = None"
      "\<not> (maximumSize c > 0 \<and> int (length (entries c)) + 1 > maximumSize c)"
      "Put k v now c =
         Some (c\<lparr>heap := heap c @ [\<lparr>ekey = k, evalue = v, lastAccess = now\<rparr>],
                 entries := length (heap c) # entries c,
                 cache := cache c @ [(k, length (heap c))]\<rparr>, [])"
  | (full) "map_of (cache c) k = None" "maximumSize c > 0"
      "int (length (entries c)) + 1 > maximumSize c" "entries c \<noteq> []"
      "Put k v now c =
         Some (c\<lparr>heap := heap c @ [\<lparr>ekey = k, evalue = v, lastAccess = now\<rparr>],
                 entries := length (heap c) # butlast (entries c),
                 cache := AList.delete (ekey (heap c ! last (entries c))) (cache c)
                            @ [(k, length (heap c))]\<rparr>,
               case onRemoval c of
                 None \<Rightarrow> []
               | Some f \<Rightarrow> [(ekey (heap c ! last (entries c)),
                              evalue (heap c ! last (entries c)))])"
proof (cases "map_of (cache c) k")
  case (Some el)
  then show ?thesis using Put_hit [OF w Some] hit by blast
next
  case None
  show ?thesis
  proof (cases "maximumSize c > 0 \<and> int (length (entries c)) + 1 > maximumSize c")
    case False
    then show ?thesis using Put_miss_room [OF None False] None room by blast
  next
    case True
    then have "entries c \<noteq> []" by auto
    then show ?thesis using Put_miss_full [OF w None] True None full by blast
  qed
qed


text \<open>Every call on a well-formed cache returns, and keeps the invariant and the bound.\<close>


lemma Put_ok:
  assumes w: "wf c"
  shows "\<exists>c' fired. Put k v now c = Some (c', fired) \<and> wf c' \<and>
     maximumSize c' = maximumSize c \<and> onRemoval c' = onRemoval c \<and>
     (0 < maximumSize c \<longrightarrow> int (length (entries c)) \<le> maximumSize c \<longrightarrow>
        int (length (entries c')) \<le> maximumSize c)"
  using w
proof (cases rule: Put_cases [where k = k and v = v and now = now])
  case (hit el)
  from wf_lookupD [OF w hit(1)] have e: "el \<in> set (entries c)" by simp
  then have "entries c \<noteq> []" by auto
  then have "Suc (length (entries c) - 1) = length (entries c)" by simp
  moreover have "wf (c\<lparr>heap := (heap c)[el := (heap c ! el)\<lparr>evalue := v, lastAccess := now\<rparr>],
      entries := el # remove1 el (entries c)\<rparr>)"
    using w e by (rule wf_touch) simp
  ultimately show ?thesis using hit(2) e by (simp add: length_remove1)
next
  case room
  have "wf (c\<lparr>heap := heap c @ [\<lparr>ekey = k, evalue = v, lastAccess = now\<rparr>],
      entries := length (heap c) # entries c, cache := cache c @ [(k, length (heap c))]\<rparr>)"
    using w room(1) by (rule wf_push) simp
  then show ?thesis using room(2,3) by auto
next
  case full
  have "wf (c\<lparr>heap := heap c @ [\<lparr>ekey = k, evalue = v, lastAccess = now\<rparr>],
      entries := length (heap c) # butlast (entries c),
      cache := AList.delete (ekey (heap c ! last (entries c))) (cache c)
                 @ [(k, length (heap c))]\<rparr>)"
    using w full(1,4) by (rule wf_evict) simp
  then show ?thesis using full(4,5) by simp
qed

lemma GetIfPresent_ok:
  assumes w: "wf c"
  shows "\<exists>c' r. GetIfPresent k now c = Some (c', r) \<and> wf c' \<and>
     maximumSize c' = maximumSize c \<and> onRemoval c' = onRemoval c \<and>
     length (entries c') = length (entries c) \<and> r = lookup c k \<and>
     (\<forall>k'. lookup c' k' = lookup c k')"
proof (cases "map_of (cache c) k")
  case None
  then show ?thesis using w by (simp add: GetIfPresent_miss lookup_def)
next
  case (Some el)
  from wf_lookupD [OF w Some] have e: "el \<in> set (entries c)" by simp
  then have "entries c \<noteq> []" by auto
  then have l: "Suc (length (entries c) - 1) = length (entries c)" by simp
  have w': "wf (c\<lparr>heap := (heap c)[el := (heap c ! el)\<lparr>lastAccess := now\<rparr>],
      entries := el # remove1 el (entries c)\<rparr>)"
    using w e by (rule wf_touch) simp
  have "lookup (c\<lparr>heap := (heap c)[el := (heap c ! el)\<lparr>lastAccess := now\<rparr>],
      entries := el # remove1 el (entries c)\<rparr>) k' = lookup c k'" for k'
    using lookup_touch [OF w Some, of "(heap c ! el)\<lparr>lastAccess := now\<rparr>" k'] Some
    by (simp add: lookup_wf [OF w])
  then show ?thesis
    using GetIfPresent_hit [OF w Some] w' l e Some
    by (simp add: length_remove1 lookup_wf [OF w])
qed

lemma Invalidate_ok:
  assumes w: "wf c"
  shows "\<exists>c' fired. Invalidate k c = Some (c', fired) \<and> wf c' \<and>
     maximumSize c' = maximumSize c \<and> onRemoval c' = onRemoval c \<and>
     length (entries c') \<le> length (entries c)"
proof (cases "map_of (cache c) k")
  case None
  then show ?thesis using w by (simp add: Invalidate_miss)
next
  case (Some el)
  show ?thesis
    using Invalidate_hit [OF w Some] wf_remove [OF w Some]
    by (simp add: length_remove1)
qed

lemma InvalidateAll_ok:
  assumes w: "wf c"
  shows "\<exists>c' fired. InvalidateAll c = Some (c', fired) \<and> wf c' \<and>
     maximumSize c' = maximumSize c \<and> onRemoval c' = onRemoval c \<and>
     length (entries c') \<le> length (entries c)"
  using InvalidateAll_live [OF w] by (simp add: wf_clear)

lemma step_ok:
  assumes w: "wf c"
  shows "\<exists>c' fired. step x c = Some (c', fired) \<and> wf c' \<and>
     maximumSize c' = maximumSize c \<and> onRemoval c' = onRemoval c \<and>
     (0 < maximumSize c \<longrightarrow> within c \<longrightarrow> within c')"
proof (cases x)
  case (CallPut k v now)
  then show ?thesis using Put_ok [OF w, of k v now] by (auto simp: within_def)
next
  case (CallGet k now)
  then show ?thesis using GetIfPresent_ok [OF w, of k now] by (auto simp: within_def)
next
  case (CallInvalidate k)
  then show ?thesis using Invalidate_ok [OF w, of k] by (auto simp: within_def)
next
  case CallInvalidateAll
  then show ?thesis using InvalidateAll_ok [OF w] by (auto simp: within_def)
qed

lemma run_ok:
  "wf c \<Longrightarrow> \<exists>c' log. run calls c = Some (c', log) \<and> wf c' \<and>
     maximumSize c' = maximumSize c \<and> onRemoval c' = onRemoval c \<and>
     (0 < maximumSize c \<longrightarrow> within c \<longrightarrow> within c')"
proof (induction calls arbitrary: c)
  case Nil
  then show ?case by simp
next
  case (Cons x xs)
  from step_ok [OF Cons.prems, of x] obtain c1 fired where
    s: "step x c = Some (c1, fired)" and w1: "wf c1" and
    m1: "maximumSize c1 = maximumSize c" and o1: "onRemoval c1 = onRemoval c" and
    b1: "0 < maximumSize c \<longrightarrow> within c \<longrightarrow> within c1"
    by blast
  from Cons.IH [OF w1] obtain c2 log where
    r: "run xs c1 = Some (c2, log)" and w2: "wf c2" and
    m2: "maximumSize c2 = maximumSize c1" and o2: "onRemoval c2 = onRemoval c1" and
    b2: "0 < maximumSize c1 \<longrightarrow> within c1 \<longrightarrow> within c2"
    by blast
  show ?case using s r w2 m1 m2 o1 o2 b1 b2 by simp
qed

lemma New_empty:
  "list_all api_option opts \<Longrightarrow>
     cache (New opts) = [] \<and> entries (New opts) = [] \<and> heap (New opts) = []"
proof -
  have "list_all api_option opts \<Longrightarrow>
      cache (foldl (\<lambda>c opt. opt c) c opts) = cache c \<and>
      entries (foldl (\<lambda>c opt. opt c) c opts) = entries c \<and>
      heap (foldl (\<lambda>c opt. opt c) c opts) = heap c"
    for c :: "('a, 'b, 'c) localCache"
    by (induction opts arbitrary: c)
      (auto simp: api_option.simps WithMaximumSize_def WithRemovalListener_def)
  then show "list_all api_option opts \<Longrightarrow>
     cache (New opts) = [] \<and> entries (New opts) = [] \<and> heap (New opts) = []"
    by (simp add: New_def newLocalCache_def)
qed

lemma wf_length: "wf c \<Longrightarrow> length (cache c) = length (entries c)"
proof -
  assume w: "wf c"
  then have "card (set (map snd (cache c))) = card (set (entries c))" by (simp add: wf_def)
  moreover from w have "distinct (map snd (cache c))" "distinct (entries c)"
    by (simp_all add: wf_def)
  ultimately show ?thesis by (simp add: distinct_card del: set_map)
qed

lemma wf_card_keys: "wf c \<Longrightarrow> card (dom (map_of (cache c))) = length (entries c)"
proof -
  assume w: "wf c"
  then have "distinct (map fst (cache c))" by (simp add: wf_def)
  then have "card (set (map fst (cache c))) = length (cache c)"
    by (simp add: distinct_card del: set_map)
  then show ?thesis using wf_length [OF w] by (simp add: dom_map_of_conv_image_fst)
qed


section \<open>Capacity\<close>

text \<open>
  Claim C1. A cache is made by \<^verbatim>\<open>New\<close> from options of the source, and its maximum
  size is positive. After every sequence of calls (of \<^verbatim>\<open>Put\<close>, and of the other
  methods as well) each call has returned, and the number of elements of the list and
  the number of keys of the map are at most the maximum size. As the sequence is any
  sequence, this holds after each call of it.
\<close>

theorem Put_capacity_invariant:
  assumes "list_all api_option opts" and "0 < maximumSize (New opts)"
  shows "\<exists>c log. run calls (New opts) = Some (c, log) \<and>
     int (length (entries c)) \<le> maximumSize (New opts) \<and>
     int (card (dom (map_of (cache c)))) \<le> maximumSize (New opts)"
proof -
  from assms(1) have w: "wf (New opts)" by (rule wf_New)
  from New_empty [OF assms(1)] assms(2) have b: "within (New opts)"
    by (simp add: within_def)
  from run_ok [OF w, of calls] assms(2) b obtain c log where
    "run calls (New opts) = Some (c, log)" "wf c" "maximumSize c = maximumSize (New opts)"
    "within c" by blast
  then show ?thesis using wf_card_keys [of c] by (auto simp: within_def)
qed

theorem Put_capacity_invariant_witness:
  "list_all api_option [WithMaximumSize 2 :: (nat, nat, unit) localCache \<Rightarrow> _] \<and>
   0 < maximumSize (New [WithMaximumSize 2] :: (nat, nat, unit) localCache) \<and>
   (\<exists>c log. run [CallPut 1 10 0, CallPut 2 20 1, CallPut 3 30 2]
        (New [WithMaximumSize 2] :: (nat, nat, unit) localCache) = Some (c, log) \<and>
      int (length (entries c)) \<le> 2 \<and> int (card (dom (map_of (cache c)))) \<le> 2)"
proof -
  let ?opts = "[WithMaximumSize 2 :: (nat, nat, unit) localCache \<Rightarrow> _]"
  have a: "list_all api_option ?opts" by (simp add: api_option.intros)
  have m: "maximumSize (New ?opts) = 2"
    by (simp add: New_def WithMaximumSize_def newLocalCache_def)
  then have b: "0 < maximumSize (New ?opts)" by simp
  show ?thesis
    using a b Put_capacity_invariant [OF a b, of "[CallPut 1 10 0, CallPut 2 20 1, CallPut 3 30 2]"]
    unfolding m by simp
qed


section \<open>The default maximum size\<close>

lemma New_only_listeners:
  assumes "set opts \<subseteq> range WithRemovalListener"
  shows "list_all api_option opts \<and> maximumSize (New opts) = defaultMaximumSize"
proof -
  have "set opts \<subseteq> range WithRemovalListener \<Longrightarrow>
      maximumSize (foldl (\<lambda>c opt. opt c) c opts) = maximumSize c"
    for c :: "('a, 'b, 'c) localCache"
    by (induction opts arbitrary: c) (auto simp: WithRemovalListener_def)
  then have "maximumSize (New opts) = defaultMaximumSize"
    using assms by (simp add: New_def newLocalCache_def)
  moreover have "list_all api_option opts"
    using assms by (auto simp: list_all_iff api_option.intros)
  ultimately show ?thesis by simp
qed

text \<open>
  Claim C10. A cache made by \<^verbatim>\<open>New\<close> without the option \<^verbatim>\<open>WithMaximumSize\<close> (with
  no option, or with removal listeners only) has the maximum size \<open>2\<^sup>3\<^sup>1 - 1\<close>, which
  is positive, so the test \<^verbatim>\<open>c.maximumSize > 0\<close> of \<^verbatim>\<open>Put\<close> holds in it: after every
  sequence of calls the maximum size is still that number and the list has at most that
  many elements.
\<close>

theorem New_default_maximumSize:
  assumes "set opts \<subseteq> range WithRemovalListener"
  shows "maximumSize (New opts) = 2 ^ 31 - 1 \<and> 0 < maximumSize (New opts) \<and>
   (\<exists>c log. run calls (New opts) = Some (c, log) \<and>
      maximumSize c = 2147483647 \<and> 0 < maximumSize c \<and>
      int (length (entries c)) \<le> 2147483647)"
proof -
  from New_only_listeners [OF assms] have a: "list_all api_option opts"
    and m: "maximumSize (New opts) = 2147483647"
    by (simp_all add: defaultMaximumSize_def)
  have w: "wf (New opts)" using a by (rule wf_New)
  have b: "within (New opts)" using New_empty [OF a] m by (simp add: within_def)
  from run_ok [OF w, of calls] b m obtain c log where
    "run calls (New opts) = Some (c, log)" "maximumSize c = maximumSize (New opts)" "within c"
    by auto
  then show ?thesis using m by (auto simp: within_def)
qed

theorem New_default_maximumSize_witness:
  "set [WithRemovalListener (Some ()) :: (nat, nat, unit) localCache \<Rightarrow> _]
     \<subseteq> range WithRemovalListener \<and>
   maximumSize (New [WithRemovalListener (Some ())] :: (nat, nat, unit) localCache)
     = 2147483647 \<and>
   (\<exists>c log. run [CallPut 1 10 0, CallPut 2 20 1]
        (New [WithRemovalListener (Some ())] :: (nat, nat, unit) localCache) = Some (c, log) \<and>
      maximumSize c = 2147483647 \<and> int (length (entries c)) \<le> 2147483647)"
proof -
  let ?opts = "[WithRemovalListener (Some ()) :: (nat, nat, unit) localCache \<Rightarrow> _]"
  have a: "set ?opts \<subseteq> range WithRemovalListener" by simp
  from New_default_maximumSize [OF a, of "[CallPut 1 10 0, CallPut 2 20 1]"] a
  show ?thesis by auto
qed


section \<open>The local cache: what a call removes and what the cache holds after it\<close>

lemma lookup_oldest:
  assumes w: "wf c" and ne: "entries c \<noteq> []"
  shows "lookup c (ekey (heap c ! last (entries c))) = Some (evalue (heap c ! last (entries c)))"
proof -
  from ne have "last (entries c) \<in> set (entries c)" by simp
  from wf_entryD [OF w this] show ?thesis by (simp add: lookup_wf [OF w])
qed

lemma Put_effect:
  assumes w: "wf c"
  shows "\<exists>c' ev. Put k v now c = Some (c', if onRemoval c = None then [] else ev) \<and>
     wf c' \<and> lookup c' k = Some v \<and>
     (\<forall>k'. k' \<noteq> k \<longrightarrow> lookup c' k' = (if k' \<in> fst ` set ev then None else lookup c k')) \<and>
     (ev = [] \<or> (\<exists>ko vo. ev = [(ko, vo)] \<and> ko \<noteq> k \<and> lookup c ko = Some vo \<and>
        lookup c k = None \<and> 0 < maximumSize c \<and>
        int (length (entries c)) + 1 > maximumSize c))"
  using w
proof (cases rule: Put_cases [where k = k and v = v and now = now])
  case (hit el)
  let ?c = "c\<lparr>heap := (heap c)[el := (heap c ! el)\<lparr>evalue := v, lastAccess := now\<rparr>],
      entries := el # remove1 el (entries c)\<rparr>"
  from wf_lookupD [OF w hit(1)] have e: "el \<in> set (entries c)" by simp
  have "wf ?c" using w e by (rule wf_touch) simp
  moreover have "lookup ?c k' = (if k' = k then Some v else lookup c k')" for k'
    using lookup_touch [OF w hit(1),
        where en = "(heap c ! el)\<lparr>evalue := v, lastAccess := now\<rparr>" and k' = k']
    by simp
  ultimately show ?thesis
    using hit(2) by (intro exI [of _ ?c] exI [of _ "[]"]) simp
next
  case room
  let ?c = "c\<lparr>heap := heap c @ [\<lparr>ekey = k, evalue = v, lastAccess = now\<rparr>],
      entries := length (heap c) # entries c, cache := cache c @ [(k, length (heap c))]\<rparr>"
  have "wf ?c" using w room(1) by (rule wf_push) simp
  moreover have "lookup ?c k' = (if k' = k then Some v else lookup c k')" for k'
    using lookup_push [OF w room(1),
        where en = "\<lparr>ekey = k, evalue = v, lastAccess = now\<rparr>" and k' = k']
    by simp
  ultimately show ?thesis
    using room(3) by (intro exI [of _ ?c] exI [of _ "[]"]) simp
next
  case full
  let ?ko = "ekey (heap c ! last (entries c))"
  let ?vo = "evalue (heap c ! last (entries c))"
  let ?c = "c\<lparr>heap := heap c @ [\<lparr>ekey = k, evalue = v, lastAccess = now\<rparr>],
      entries := length (heap c) # butlast (entries c),
      cache := AList.delete ?ko (cache c) @ [(k, length (heap c))]\<rparr>"
  have w': "wf ?c" using w full(1,4) by (rule wf_evict) simp
  have l: "lookup ?c k' = (if k' = k then Some v else if k' = ?ko then None else lookup c k')"
    for k'
    using lookup_evict [OF w full(1,4),
        where en = "\<lparr>ekey = k, evalue = v, lastAccess = now\<rparr>" and k' = k']
    by simp
  have o: "lookup c ?ko = Some ?vo" using w full(4) by (rule lookup_oldest)
  have n: "lookup c k = None" using full(1) by (simp add: lookup_def)
  with o have ne: "?ko \<noteq> k" by auto
  have p: "Put k v now c = Some (?c, if onRemoval c = None then [] else [(?ko, ?vo)])"
    using full(5) by (cases "onRemoval c") simp_all
  show ?thesis
    using p w' l o n ne full(2,3)
    by (intro exI [of _ ?c] exI [of _ "[(?ko, ?vo)]"]) simp
qed

lemma Invalidate_effect:
  assumes w: "wf c"
  shows "\<exists>c'. Invalidate k c =
       Some (c', if onRemoval c = None then []
                 else (case lookup c k of None \<Rightarrow> [] | Some v \<Rightarrow> [(k, v)])) \<and>
     wf c' \<and> (\<forall>k'. lookup c' k' = (if k' = k then None else lookup c k'))"
proof (cases "map_of (cache c) k")
  case None
  then show ?thesis using w by (simp add: Invalidate_miss lookup_def)
next
  case (Some el)
  have "Invalidate k c =
     Some (c\<lparr>entries := remove1 el (entries c), cache := AList.delete k (cache c)\<rparr>,
       if onRemoval c = None then []
       else (case lookup c k of None \<Rightarrow> [] | Some v \<Rightarrow> [(k, v)]))"
    using Invalidate_hit [OF w Some] Some
    by (cases "onRemoval c") (simp_all add: lookup_wf [OF w])
  then show ?thesis
    using wf_remove [OF w Some] by (simp add: lookup_remove)
qed

lemma live_pairs:
  assumes w: "wf c"
  shows "distinct (map fst (map (\<lambda>(k, el). (k, evalue (heap c ! el))) (cache c))) \<and>
     set (map (\<lambda>(k, el). (k, evalue (heap c ! el))) (cache c)) = {(k, v). lookup c k = Some v}"
proof -
  let ?ev = "map (\<lambda>(k, el). (k, evalue (heap c ! el))) (cache c)"
  from w have d: "distinct (map fst (cache c))" by (simp add: wf_def)
  have "map fst ?ev = map fst (cache c)"
    by (simp add: case_prod_unfold)
  with d have d': "distinct (map fst ?ev)" by (simp only:)
  have iff: "(k, v) \<in> set ?ev \<longleftrightarrow> lookup c k = Some v" for k v
  proof
    assume "(k, v) \<in> set ?ev"
    then obtain el where "(k, el) \<in> set (cache c)" "v = evalue (heap c ! el)" by auto
    then show "lookup c k = Some v" using d by (simp add: lookup_wf [OF w])
  next
    assume "lookup c k = Some v"
    then obtain el where m: "map_of (cache c) k = Some el" and v: "v = evalue (heap c ! el)"
      by (auto simp: lookup_wf [OF w])
    from m have "(k, el) \<in> set (cache c)" by (rule map_of_SomeD)
    then show "(k, v) \<in> set ?ev"
      using v by force
  qed
  have "set ?ev = {(k, v). lookup c k = Some v}"
  proof (rule set_eqI)
    fix x :: "'a \<times> 'b"
    obtain k v where x: "x = (k, v)" by (cases x)
    show "x \<in> set ?ev \<longleftrightarrow> x \<in> {(k, v). lookup c k = Some v}"
      unfolding x by (simp only: iff mem_Collect_eq case_prod_conv)
  qed
  with d' show ?thesis by (simp only: simp_thms)
qed

lemma InvalidateAll_effect:
  assumes w: "wf c"
  shows "\<exists>c' ev. InvalidateAll c = Some (c', if onRemoval c = None then [] else ev) \<and>
     wf c' \<and> cache c' = [] \<and> entries c' = [] \<and> (\<forall>k. lookup c' k = None) \<and>
     distinct (map fst ev) \<and> set ev = {(k, v). lookup c k = Some v}"
proof -
  let ?ev = "map (\<lambda>(k, el). (k, evalue (heap c ! el))) (cache c)"
  have "InvalidateAll c = Some (c\<lparr>cache := [], entries := []\<rparr>,
      if onRemoval c = None then [] else ?ev)"
    using InvalidateAll_live [OF w] by (cases "onRemoval c") simp_all
  moreover have "wf (c\<lparr>cache := [], entries := []\<rparr>)" by (rule wf_clear)
  moreover have "\<forall>k. lookup (c\<lparr>cache := [], entries := []\<rparr>) k = None"
    by (simp add: lookup_clear)
  moreover note live_pairs [OF w]
  ultimately show ?thesis
    by (intro exI [of _ "c\<lparr>cache := [], entries := []\<rparr>"] exI [of _ ?ev]) simp
qed


lemma run_append:
  "run (xs @ ys) c =
     (case run xs c of
        None \<Rightarrow> None
      | Some (c1, l1) \<Rightarrow>
          (case run ys c1 of None \<Rightarrow> None | Some (c2, l2) \<Rightarrow> Some (c2, l1 @ l2)))"
  by (induction xs arbitrary: c) (auto split: option.splits)

lemma run_New_ok:
  assumes "list_all api_option opts"
  shows "\<exists>c log. run calls (New opts) = Some (c, log) \<and> wf c \<and>
     maximumSize c = maximumSize (New opts) \<and> onRemoval c = onRemoval (New opts)"
  using run_ok [OF wf_New [OF assms], of calls] by blast

section \<open>Clearing the cache\<close>

text \<open>
  Claim C6. In a cache reached by any sequence of calls from \<^verbatim>\<open>New\<close>,
  \<^verbatim>\<open>InvalidateAll\<close> returns; after it \<^verbatim>\<open>GetIfPresent\<close> returns absent for every key
  (so for every key that was present); a second \<^verbatim>\<open>InvalidateAll\<close> right after it
  changes nothing and calls the listener for no entry; and the first one calls the
  listener, when one is configured, once for each key that was present, with the value
  the cache held for it (and for nothing when none is configured).
\<close>

theorem InvalidateAll_idempotent:
  assumes "list_all api_option opts"
  shows "\<exists>c log c1 fired.
     run calls (New opts) = Some (c, log) \<and>
     InvalidateAll c = Some (c1, fired) \<and>
     (\<forall>k now. GetIfPresent k now c1 = Some (c1, None)) \<and>
     InvalidateAll c1 = Some (c1, []) \<and>
     run (calls @ [CallInvalidateAll, CallInvalidateAll]) (New opts) = Some (c1, log @ fired) \<and>
     (onRemoval (New opts) = None \<longrightarrow> fired = []) \<and>
     (onRemoval (New opts) \<noteq> None \<longrightarrow>
        distinct (map fst fired) \<and> set fired = {(k, v). lookup c k = Some v})"
proof -
  from run_New_ok [OF assms, of calls] obtain c log where
    r: "run calls (New opts) = Some (c, log)" and w: "wf c" and
    o: "onRemoval c = onRemoval (New opts)" by blast
  from InvalidateAll_effect [OF w] obtain c1 ev where
    i: "InvalidateAll c = Some (c1, if onRemoval c = None then [] else ev)" and
    w1: "wf c1" and e1: "cache c1 = []" "entries c1 = []" and
    d: "distinct (map fst ev)" and s: "set ev = {(k, v). lookup c k = Some v}" by blast
  let ?fired = "if onRemoval c = None then [] else ev"
  have g: "\<forall>k now. GetIfPresent k now c1 = Some (c1, None)"
    using e1 by (simp add: GetIfPresent_def)
  have i2: "InvalidateAll c1 = Some (c1, [])"
    using InvalidateAll_live [OF w1] e1 by (cases "onRemoval c1") simp_all
  have "run (calls @ [CallInvalidateAll, CallInvalidateAll]) (New opts) = Some (c1, log @ ?fired)"
    using r i i2 by (simp add: run_append)
  then show ?thesis
    using r i g i2 d s o by (intro exI [of _ c] exI [of _ log] exI [of _ c1] exI [of _ ?fired]) simp
qed

theorem InvalidateAll_idempotent_witness:
  "list_all api_option
     [WithMaximumSize 2, WithRemovalListener (Some ()) :: (nat, nat, unit) localCache \<Rightarrow> _] \<and>
   onRemoval (New [WithMaximumSize 2, WithRemovalListener (Some ())]
     :: (nat, nat, unit) localCache) \<noteq> None \<and>
   (\<exists>c log c1 fired.
      run [CallPut 1 10 0, CallPut 2 20 1]
        (New [WithMaximumSize 2, WithRemovalListener (Some ())]
          :: (nat, nat, unit) localCache) = Some (c, log) \<and>
      InvalidateAll c = Some (c1, fired) \<and>
      GetIfPresent 1 5 c1 = Some (c1, None) \<and>
      InvalidateAll c1 = Some (c1, []) \<and>
      distinct (map fst fired) \<and> set fired = {(k, v). lookup c k = Some v})"
proof -
  let ?opts = "[WithMaximumSize 2, WithRemovalListener (Some ())
      :: (nat, nat, unit) localCache \<Rightarrow> _]"
  have a: "list_all api_option ?opts" by (simp add: api_option.intros)
  have b: "onRemoval (New ?opts) \<noteq> None"
    by (simp add: New_def WithMaximumSize_def WithRemovalListener_def)
  from InvalidateAll_idempotent [OF a, of "[CallPut 1 10 0, CallPut 2 20 1]"] b
  have "\<exists>c log c1 fired.
      run [CallPut 1 10 0, CallPut 2 20 1] (New ?opts) = Some (c, log) \<and>
      InvalidateAll c = Some (c1, fired) \<and>
      GetIfPresent 1 5 c1 = Some (c1, None) \<and>
      InvalidateAll c1 = Some (c1, []) \<and>
      distinct (map fst fired) \<and> set fired = {(k, v). lookup c k = Some v}"
    by blast
  with a b show ?thesis by blast
qed

section \<open>The unbounded cache\<close>

lemma dom_lookup: "wf c \<Longrightarrow> dom (lookup c) = dom (map_of (cache c))"
  by (auto simp: lookup_wf dom_def)

lemma Put_unbounded:
  assumes w: "wf c" and m: "maximumSize c \<le> 0"
  shows "\<exists>c'. Put k v now c = Some (c', []) \<and> wf c' \<and> maximumSize c' = maximumSize c \<and>
     (\<forall>k'. lookup c' k' = (if k' = k then Some v else lookup c k'))"
proof -
  from Put_effect [OF w, of k v now] m obtain c' where
    "Put k v now c = Some (c', [])" "wf c'" "lookup c' k = Some v"
    "\<forall>k'. k' \<noteq> k \<longrightarrow> lookup c' k' = lookup c k'"
    by auto
  moreover from Put_ok [OF w, of k v now] this(1) have "maximumSize c' = maximumSize c" by auto
  ultimately show ?thesis by auto
qed

lemma step_unbounded:
  assumes w: "wf c" and m: "maximumSize c \<le> 0"
  shows "\<exists>c' fired. step x c = Some (c', fired) \<and> wf c' \<and> maximumSize c' = maximumSize c \<and>
     dom (lookup c') = keys_after (dom (lookup c)) [x]"
proof (cases x)
  case (CallPut k v now)
  from Put_unbounded [OF w m, of k v now] obtain c' where
    "Put k v now c = Some (c', [])" "wf c'" "maximumSize c' = maximumSize c"
    "\<forall>k'. lookup c' k' = (if k' = k then Some v else lookup c k')" by blast
  moreover from this(4) have "dom (lookup c') = insert k (dom (lookup c))"
    by (auto simp: dom_def)
  ultimately show ?thesis using CallPut by simp
next
  case (CallGet k now)
  from GetIfPresent_ok [OF w, of k now] obtain c' r where
    "GetIfPresent k now c = Some (c', r)" "wf c'" "maximumSize c' = maximumSize c"
    "\<forall>k'. lookup c' k' = lookup c k'" by blast
  moreover from this(4) have "dom (lookup c') = dom (lookup c)" by (auto simp: dom_def)
  ultimately show ?thesis using CallGet by simp
next
  case (CallInvalidate k)
  from Invalidate_effect [OF w, of k] obtain c' fired where
    i: "Invalidate k c = Some (c', fired)" and "wf c'"
    and l: "\<forall>k'. lookup c' k' = (if k' = k then None else lookup c k')" by blast
  moreover from Invalidate_ok [OF w, of k] i have "maximumSize c' = maximumSize c" by auto
  moreover from l have "dom (lookup c') = dom (lookup c) - {k}"
    by (auto simp: dom_def)
  ultimately show ?thesis using CallInvalidate by simp
next
  case CallInvalidateAll
  from InvalidateAll_effect [OF w] obtain c' fired where
    i: "InvalidateAll c = Some (c', fired)" and "wf c'" and l: "\<forall>k. lookup c' k = None"
    by blast
  moreover from InvalidateAll_ok [OF w] i have "maximumSize c' = maximumSize c" by auto
  moreover from l have "dom (lookup c') = {}" by (auto simp: dom_def)
  ultimately show ?thesis using CallInvalidateAll by simp
qed

lemma run_unbounded:
  "wf c \<Longrightarrow> maximumSize c \<le> 0 \<Longrightarrow>
     \<exists>c' log. run calls c = Some (c', log) \<and> wf c' \<and> maximumSize c' = maximumSize c \<and>
       dom (lookup c') = keys_after (dom (lookup c)) calls"
proof (induction calls arbitrary: c)
  case Nil
  then show ?case by simp
next
  case (Cons x xs)
  from step_unbounded [OF Cons.prems, of x] obtain c1 fired where
    s: "step x c = Some (c1, fired)" and w1: "wf c1" and
    m1: "maximumSize c1 = maximumSize c" and
    d1: "dom (lookup c1) = keys_after (dom (lookup c)) [x]" by blast
  from m1 Cons.prems(2) have m1': "maximumSize c1 \<le> 0" by simp
  from Cons.IH [OF w1 m1'] obtain c2 log where
    r: "run xs c1 = Some (c2, log)" and w2: "wf c2" and
    m2: "maximumSize c2 = maximumSize c1" and
    d2: "dom (lookup c2) = keys_after (dom (lookup c1)) xs" by blast
  have "keys_after (dom (lookup c1)) xs = keys_after (dom (lookup c)) (x # xs)"
    unfolding d1 by (cases x) simp_all
  then show ?case using s r w2 m1 m2 d2 by simp
qed

text \<open>
  Claim C8. A cache is made by \<^verbatim>\<open>New\<close> from options of the source that leave a
  maximum size of zero or less. After every sequence of calls, a \<^verbatim>\<open>Put\<close> calls the
  listener for nothing and removes no key: it only sets the value of its own key. The
  keys that the cache holds are the keys put and not invalidated since, and the number
  of elements of the list, and of keys of the map, is the number of those keys.
\<close>

theorem nonpositive_maximumSize_unbounded:
  assumes "list_all api_option opts" and "maximumSize (New opts) \<le> 0"
  shows "\<exists>c log. run calls (New opts) = Some (c, log) \<and>
     dom (lookup c) = keys_after {} calls \<and>
     length (entries c) = card (keys_after {} calls) \<and>
     card (dom (map_of (cache c))) = card (keys_after {} calls) \<and>
     (\<forall>k v now. \<exists>c'. Put k v now c = Some (c', []) \<and>
        (\<forall>k'. lookup c' k' = (if k' = k then Some v else lookup c k')))"
proof -
  from assms(1) have w: "wf (New opts)" by (rule wf_New)
  from New_empty [OF assms(1)] have e: "dom (lookup (New opts)) = {}"
    by (auto simp: lookup_def)
  from run_unbounded [OF w assms(2), of calls] obtain c log where
    r: "run calls (New opts) = Some (c, log)" and w': "wf c" and
    m: "maximumSize c = maximumSize (New opts)" and
    d: "dom (lookup c) = keys_after {} calls" unfolding e by blast
  from m assms(2) have m': "maximumSize c \<le> 0" by simp
  have "\<forall>k v now. \<exists>c'. Put k v now c = Some (c', []) \<and>
        (\<forall>k'. lookup c' k' = (if k' = k then Some v else lookup c k'))"
    using Put_unbounded [OF w' m'] by blast
  moreover have "card (dom (map_of (cache c))) = card (keys_after {} calls)"
    using d dom_lookup [OF w'] by simp
  moreover have "length (entries c) = card (keys_after {} calls)"
    using wf_card_keys [OF w'] d dom_lookup [OF w'] by simp
  ultimately show ?thesis using r d by blast
qed


theorem nonpositive_maximumSize_unbounded_witness:
  "list_all api_option [WithMaximumSize 0 :: (nat, nat, unit) localCache \<Rightarrow> _] \<and>
   maximumSize (New [WithMaximumSize 0] :: (nat, nat, unit) localCache) \<le> 0 \<and>
   (\<exists>c log. run [CallPut 1 10 0, CallPut 2 20 1, CallInvalidate 1, CallPut 3 30 2]
        (New [WithMaximumSize 0] :: (nat, nat, unit) localCache) = Some (c, log) \<and>
      dom (lookup c) = {2, 3} \<and> length (entries c) = 2)"
proof -
  let ?opts = "[WithMaximumSize 0 :: (nat, nat, unit) localCache \<Rightarrow> _]"
  let ?calls = "[CallPut 1 10 0, CallPut 2 20 1, CallInvalidate 1, CallPut 3 30 2]
    :: (nat, nat) call list"
  have a: "list_all api_option ?opts" by (simp add: api_option.intros)
  have b: "maximumSize (New ?opts) \<le> 0"
    by (simp add: New_def WithMaximumSize_def newLocalCache_def)
  have k: "keys_after {} ?calls = {2, 3}" by auto
  from nonpositive_maximumSize_unbounded [OF a b, of ?calls] obtain c log where
    "run ?calls (New ?opts) = Some (c, log)" "dom (lookup c) = keys_after {} ?calls"
    "length (entries c) = card (keys_after {} ?calls)" by blast
  then have "run ?calls (New ?opts) = Some (c, log) \<and> dom (lookup c) = {2, 3} \<and>
      length (entries c) = 2"
    unfolding k by simp
  with a b show ?thesis by blast
qed



section \<open>The removal listener\<close>

lemma lookup_None_iff: "wf c \<Longrightarrow> lookup c k = None \<longleftrightarrow> map_of (cache c) k = None"
  by (simp add: lookup_wf)

text \<open>
  One call: the listener gets the entries that leave, and a value that the cache holds
  after the call was put by the call or held before it.
\<close>

lemma step_effect:
  assumes w: "wf c"
  shows "\<exists>c' ev. step x c = Some (c', if onRemoval c = None then [] else ev) \<and>
     wf c' \<and> onRemoval c' = onRemoval c \<and>
     distinct (map fst ev) \<and>
     set ev = {(k, v). lookup c k = Some v \<and> lookup c' k = None} \<and>
     (\<forall>k v. lookup c' k = Some v \<longrightarrow> (\<exists>now. x = CallPut k v now) \<or>
        ((\<forall>v' now. x \<noteq> CallPut k v' now) \<and> lookup c k = Some v))"
proof (cases x)
  case (CallPut k v now)
  from Put_effect [OF w, of k v now] obtain c' ev where
    p: "Put k v now c = Some (c', if onRemoval c = None then [] else ev)" and
    w': "wf c'" and l: "lookup c' k = Some v" and
    o: "\<forall>k'. k' \<noteq> k \<longrightarrow> lookup c' k' = (if k' \<in> fst ` set ev then None else lookup c k')" and
    e: "ev = [] \<or> (\<exists>ko vo. ev = [(ko, vo)] \<and> ko \<noteq> k \<and> lookup c ko = Some vo \<and>
        lookup c k = None \<and> 0 < maximumSize c \<and>
        int (length (entries c)) + 1 > maximumSize c)"
    by blast
  from Put_ok [OF w, of k v now] p have r: "onRemoval c' = onRemoval c" by auto
  have d: "distinct (map fst ev)" using e by auto
  have s: "set ev = {(k, v). lookup c k = Some v \<and> lookup c' k = None}"
  proof (rule set_eqI)
    fix y :: "'a \<times> 'b"
    obtain k' v' where y: "y = (k', v')" by (cases y)
    show "y \<in> set ev \<longleftrightarrow> y \<in> {(k, v). lookup c k = Some v \<and> lookup c' k = None}"
      unfolding y using e l o by (cases "k' = k") (auto split: if_splits)
  qed
  have h: "\<forall>k' v'. lookup c' k' = Some v' \<longrightarrow> (\<exists>now. x = CallPut k' v' now) \<or>
        ((\<forall>v'' now. x \<noteq> CallPut k' v'' now) \<and> lookup c k' = Some v')"
  proof (intro allI impI)
    fix k' v' assume a: "lookup c' k' = Some v'"
    show "(\<exists>now. x = CallPut k' v' now) \<or>
        ((\<forall>v'' now. x \<noteq> CallPut k' v'' now) \<and> lookup c k' = Some v')"
    proof (cases "k' = k")
      case True
      then show ?thesis using a l CallPut by simp
    next
      case False
      then show ?thesis using a o CallPut by (auto split: if_splits)
    qed
  qed
  show ?thesis
    using p w' r d s h CallPut by (intro exI [of _ c'] exI [of _ ev]) simp
next
  case (CallGet k now)
  from GetIfPresent_ok [OF w, of k now] obtain c' r where
    g: "GetIfPresent k now c = Some (c', r)" and w': "wf c'" and
    o: "onRemoval c' = onRemoval c" and l: "\<forall>k'. lookup c' k' = lookup c k'" by blast
  have "{(k, v). lookup c k = Some v \<and> lookup c' k = None} = {}" using l by auto
  then show ?thesis
    using g w' o l CallGet by (intro exI [of _ c'] exI [of _ "[]"]) simp
next
  case (CallInvalidate k)
  let ?ev = "case lookup c k of None \<Rightarrow> [] | Some v \<Rightarrow> [(k, v)]"
  from Invalidate_effect [OF w, of k] obtain c' where
    i: "Invalidate k c = Some (c', if onRemoval c = None then [] else ?ev)" and
    w': "wf c'" and l: "\<forall>k'. lookup c' k' = (if k' = k then None else lookup c k')"
    by blast
  from Invalidate_ok [OF w, of k] i have o: "onRemoval c' = onRemoval c" by auto
  have d: "distinct (map fst ?ev)" by (cases "lookup c k") simp_all
  have s: "set ?ev = {(k, v). lookup c k = Some v \<and> lookup c' k = None}"
    using l by (cases "lookup c k") (auto split: if_splits)
  have h: "\<forall>k' v'. lookup c' k' = Some v' \<longrightarrow> lookup c k' = Some v'"
    using l by (auto split: if_splits)
  show ?thesis
    using i w' o d s h CallInvalidate by (intro exI [of _ c'] exI [of _ ?ev]) simp
next
  case CallInvalidateAll
  from InvalidateAll_effect [OF w] obtain c' ev where
    i: "InvalidateAll c = Some (c', if onRemoval c = None then [] else ev)" and
    w': "wf c'" and l: "\<forall>k. lookup c' k = None" and
    d: "distinct (map fst ev)" and s: "set ev = {(k, v). lookup c k = Some v}" by blast
  from InvalidateAll_ok [OF w] i have o: "onRemoval c' = onRemoval c" by auto
  have s': "set ev = {(k, v). lookup c k = Some v \<and> lookup c' k = None}"
    using s l by simp
  show ?thesis
    using i w' o d s' l CallInvalidateAll by (intro exI [of _ c'] exI [of _ ev]) simp
qed


lemma step_stored:
  assumes w: "wf c" and le: "lookup c \<subseteq>\<^sub>m m"
  shows "\<exists>c' fired. step x c = Some (c', fired) \<and> wf c' \<and> onRemoval c' = onRemoval c \<and>
     lookup c' \<subseteq>\<^sub>m stored m [x]"
proof -
  from step_effect [OF w, of x] obtain c' fired where
    s: "step x c = Some (c', fired)" and w': "wf c'" and o: "onRemoval c' = onRemoval c" and
    h: "\<forall>k v. lookup c' k = Some v \<longrightarrow> (\<exists>now. x = CallPut k v now) \<or>
        ((\<forall>v' now. x \<noteq> CallPut k v' now) \<and> lookup c k = Some v)"
    by blast
  have "lookup c' k = stored m [x] k" if "k \<in> dom (lookup c')" for k
  proof -
    from that obtain v where v: "lookup c' k = Some v" by auto
    from h v consider (put) now where "x = CallPut k v now"
      | (held) "\<forall>v' now. x \<noteq> CallPut k v' now" "lookup c k = Some v" by blast
    then show ?thesis
    proof cases
      case put
      then show ?thesis using v by simp
    next
      case held
      from held(2) le have "m k = Some v" by (auto simp: map_le_def dom_def)
      then show ?thesis using held(1) v by (cases x) auto
    qed
  qed
  then have "lookup c' \<subseteq>\<^sub>m stored m [x]" by (simp add: map_le_def)
  then show ?thesis using s w' o by blast
qed

lemma run_stored:
  "wf c \<Longrightarrow> lookup c \<subseteq>\<^sub>m m \<Longrightarrow>
     \<exists>c' log. run calls c = Some (c', log) \<and> wf c' \<and> onRemoval c' = onRemoval c \<and>
       lookup c' \<subseteq>\<^sub>m stored m calls"
proof (induction calls arbitrary: c m)
  case Nil
  then show ?case by simp
next
  case (Cons x xs)
  from step_stored [OF Cons.prems, of x] obtain c1 fired where
    s: "step x c = Some (c1, fired)" and w1: "wf c1" and o1: "onRemoval c1 = onRemoval c" and
    l1: "lookup c1 \<subseteq>\<^sub>m stored m [x]" by blast
  from Cons.IH [OF w1 l1] obtain c2 log where
    r: "run xs c1 = Some (c2, log)" and w2: "wf c2" and o2: "onRemoval c2 = onRemoval c1" and
    l2: "lookup c2 \<subseteq>\<^sub>m stored (stored m [x]) xs" by blast
  have "stored (stored m [x]) xs = stored m (x # xs)" by (cases x) simp_all
  with l2 have "lookup c2 \<subseteq>\<^sub>m stored m (x # xs)" by simp
  then show ?case using s r w2 o1 o2 by simp
qed

text \<open>
  Calls one at a time. A cache is made by \<^verbatim>\<open>New\<close> from options of the source that
  configure a listener. After any sequence of calls, the next call, whichever it is,
  calls the listener exactly once for each key that the cache held before the call and
  no longer holds after it, and for nothing else; the value passed is the value the
  cache held for the key, which is the value of the last \<^verbatim>\<open>Put\<close> of that key.
\<close>

lemma removal_listener_one_at_a_time:
  assumes "list_all api_option opts" and "onRemoval (New opts) \<noteq> None"
  shows "\<exists>c log c' fired.
     run calls (New opts) = Some (c, log) \<and>
     step x c = Some (c', fired) \<and>
     run (calls @ [x]) (New opts) = Some (c', log @ fired) \<and>
     distinct (map fst fired) \<and>
     set fired = {(k, v). lookup c k = Some v \<and> lookup c' k = None} \<and>
     (\<forall>k v. (k, v) \<in> set fired \<longrightarrow> stored Map.empty calls k = Some v)"
proof -
  from assms(1) have w0: "wf (New opts)" by (rule wf_New)
  from New_empty [OF assms(1)] have "lookup (New opts) \<subseteq>\<^sub>m Map.empty"
    by (simp add: lookup_def map_le_def)
  from run_stored [OF w0 this, of calls] obtain c log where
    r: "run calls (New opts) = Some (c, log)" and w: "wf c" and
    o: "onRemoval c = onRemoval (New opts)" and
    le: "lookup c \<subseteq>\<^sub>m stored Map.empty calls" by blast
  from step_effect [OF w, of x] o assms(2) obtain c' fired where
    s: "step x c = Some (c', fired)" and d: "distinct (map fst fired)" and
    f: "set fired = {(k, v). lookup c k = Some v \<and> lookup c' k = None}"
    by auto
  have "stored Map.empty calls k = Some v" if "(k, v) \<in> set fired" for k v
  proof -
    from that f have "lookup c k = Some v" by auto
    with le show ?thesis by (auto simp: map_le_def dom_def)
  qed
  moreover have "run (calls @ [x]) (New opts) = Some (c', log @ fired)"
    using r s by (simp add: run_append)
  ultimately show ?thesis using r s d f by blast
qed

section \<open>Keys and entries\<close>

text \<open>A key that the cache does not hold stays absent until it is put.\<close>

lemma step_absent:
  assumes w: "wf c" and n: "lookup c k = None" and x: "\<forall>v now. x \<noteq> CallPut k v now"
  shows "\<exists>c' fired. step x c = Some (c', fired) \<and> wf c' \<and> lookup c' k = None"
proof -
  from step_effect [OF w, of x] obtain c' fired where
    s: "step x c = Some (c', fired)" and w': "wf c'" and
    h: "\<forall>k v. lookup c' k = Some v \<longrightarrow> (\<exists>now. x = CallPut k v now) \<or>
        ((\<forall>v' now. x \<noteq> CallPut k v' now) \<and> lookup c k = Some v)"
    by blast
  have "lookup c' k = None"
  proof (cases "lookup c' k")
    case None
    then show ?thesis .
  next
    case (Some v)
    from h Some have "(\<exists>now. x = CallPut k v now) \<or> lookup c k = Some v" by blast
    with x n show ?thesis by auto
  qed
  then show ?thesis using s w' by blast
qed

lemma run_absent:
  "wf c \<Longrightarrow> lookup c k = None \<Longrightarrow> \<forall>v now. CallPut k v now \<notin> set calls \<Longrightarrow>
     \<exists>c' log. run calls c = Some (c', log) \<and> wf c' \<and> lookup c' k = None"
proof (induction calls arbitrary: c)
  case Nil
  then show ?case by simp
next
  case (Cons x xs)
  from Cons.prems(3) have x: "\<forall>v now. x \<noteq> CallPut k v now"
    and xs: "\<forall>v now. CallPut k v now \<notin> set xs" by auto
  from step_absent [OF Cons.prems(1,2) x] obtain c1 fired where
    s: "step x c = Some (c1, fired)" and w1: "wf c1" and n1: "lookup c1 k = None" by blast
  from Cons.IH [OF w1 n1 xs] obtain c2 log where
    "run xs c1 = Some (c2, log)" "wf c2" "lookup c2 k = None" by blast
  then show ?case using s by simp
qed

text \<open>
  Claim C5. In a cache reached by a sequence of calls from \<^verbatim>\<open>New\<close>, a call either
  invalidates the key \<open>k\<close>, or is a \<^verbatim>\<open>Put\<close> that evicts the entry of \<open>k\<close> (the cache
  held \<open>k\<close> before it and does not after it). Then after any later calls, none of them a
  \<^verbatim>\<open>Put\<close> of \<open>k\<close>, \<^verbatim>\<open>GetIfPresent\<close> returns absent for \<open>k\<close>. The cache is
  well-formed then (\<open>wf\<close>): each key of the map has one pair and one element, no two
  keys share an element, each element is once in the list, and it holds an entry with
  that key.
\<close>

theorem absent_until_Put:
  assumes "list_all api_option opts"
    and "run calls (New opts) = Some (c, log)"
    and "x = CallInvalidate k \<or>
         (\<exists>k' v now c' fired. x = CallPut k' v now \<and> lookup c k \<noteq> None \<and>
            step x c = Some (c', fired) \<and> lookup c' k = None)"
    and "\<forall>v now. CallPut k v now \<notin> set later"
  shows "\<exists>c2 log2. run (calls @ x # later) (New opts) = Some (c2, log2) \<and> wf c2 \<and>
     (\<forall>now. GetIfPresent k now c2 = Some (c2, None))"
proof -
  from run_New_ok [OF assms(1), of calls] assms(2) have w: "wf c" by simp
  from step_effect [OF w, of x] obtain c1 fired where
    s: "step x c = Some (c1, fired)" and w1: "wf c1" by blast
  have n1: "lookup c1 k = None"
    using assms(3)
  proof
    assume "x = CallInvalidate k"
    with Invalidate_effect [OF w, of k] s show ?thesis by auto
  next
    assume "\<exists>k' v now c' fired. x = CallPut k' v now \<and> lookup c k \<noteq> None \<and>
            step x c = Some (c', fired) \<and> lookup c' k = None"
    with s show ?thesis by auto
  qed
  from run_absent [OF w1 n1 assms(4)] obtain c2 log2 where
    r: "run later c1 = Some (c2, log2)" and w2: "wf c2" and n2: "lookup c2 k = None" by blast
  from n2 have "map_of (cache c2) k = None" by (simp add: lookup_None_iff [OF w2])
  then have "\<forall>now. GetIfPresent k now c2 = Some (c2, None)"
    by (simp add: GetIfPresent_miss)
  moreover have "run (calls @ x # later) (New opts) = Some (c2, log @ fired @ log2)"
    using assms(2) s r by (simp add: run_append)
  ultimately show ?thesis using w2 by blast
qed


text \<open>The definitions that evaluate a call on a given cache.\<close>

lemmas cache_eval =
  New_def WithMaximumSize_def WithRemovalListener_def newLocalCache_def Put_def
  GetIfPresent_def Invalidate_def InvalidateAll_def removeOldest_def getEntry_def
  PushFront_def MoveToFront_def Remove_def Back_def lookup_def Let_def

theorem absent_until_Put_witness:
  "list_all api_option
     [WithMaximumSize 2, WithRemovalListener (Some ()) :: (nat, nat, unit) localCache \<Rightarrow> _] \<and>
   run [CallPut 1 10 0, CallPut 2 20 1]
     (New [WithMaximumSize 2, WithRemovalListener (Some ())] :: (nat, nat, unit) localCache) =
     Some (\<lparr>maximumSize = 2, onRemoval = Some (), cache = [(1, 0), (2, 1)], entries = [1, 0],
             heap = [\<lparr>ekey = 1, evalue = 10, lastAccess = 0\<rparr>,
                     \<lparr>ekey = 2, evalue = 20, lastAccess = 1\<rparr>]\<rparr>, []) \<and>
   (\<exists>c2 log2.
      run ([CallPut 1 10 0, CallPut 2 20 1] @ CallInvalidate 1 # [CallGet 1 2, CallPut 3 30 3])
        (New [WithMaximumSize 2, WithRemovalListener (Some ())]
          :: (nat, nat, unit) localCache) = Some (c2, log2) \<and>
      wf c2 \<and> (\<forall>now. GetIfPresent 1 now c2 = Some (c2, None))) \<and>
   step (CallPut 3 30 2)
     (\<lparr>maximumSize = 2, onRemoval = Some (), cache = [(1, 0), (2, 1)], entries = [1, 0],
       heap = [\<lparr>ekey = 1, evalue = 10, lastAccess = 0\<rparr>,
               \<lparr>ekey = 2, evalue = 20, lastAccess = 1\<rparr>]\<rparr> :: (nat, nat, unit) localCache) =
     Some (\<lparr>maximumSize = 2, onRemoval = Some (), cache = [(2, 1), (3, 2)], entries = [2, 1],
             heap = [\<lparr>ekey = 1, evalue = 10, lastAccess = 0\<rparr>,
                     \<lparr>ekey = 2, evalue = 20, lastAccess = 1\<rparr>,
                     \<lparr>ekey = 3, evalue = 30, lastAccess = 2\<rparr>]\<rparr>, [(1 :: nat, 10 :: nat)]) \<and>
   (\<exists>c2 log2.
      run ([CallPut 1 10 0, CallPut 2 20 1] @ CallPut 3 30 2 # [CallGet 1 3, CallInvalidate 2])
        (New [WithMaximumSize 2, WithRemovalListener (Some ())]
          :: (nat, nat, unit) localCache) = Some (c2, log2) \<and>
      wf c2 \<and> (\<forall>now. GetIfPresent 1 now c2 = Some (c2, None)))"
proof -
  let ?opts = "[WithMaximumSize 2, WithRemovalListener (Some ())
      :: (nat, nat, unit) localCache \<Rightarrow> _]"
  let ?c = "\<lparr>maximumSize = 2, onRemoval = Some (), cache = [(1, 0), (2, 1)], entries = [1, 0],
      heap = [\<lparr>ekey = 1, evalue = 10, lastAccess = 0\<rparr>,
              \<lparr>ekey = 2, evalue = 20, lastAccess = 1\<rparr>]\<rparr> :: (nat, nat, unit) localCache"
  let ?c' = "\<lparr>maximumSize = 2, onRemoval = Some (), cache = [(2, 1), (3, 2)], entries = [2, 1],
      heap = [\<lparr>ekey = 1, evalue = 10, lastAccess = 0\<rparr>,
              \<lparr>ekey = 2, evalue = 20, lastAccess = 1\<rparr>,
              \<lparr>ekey = 3, evalue = 30, lastAccess = 2\<rparr>]\<rparr> :: (nat, nat, unit) localCache"
  have a: "list_all api_option ?opts" by (simp add: api_option.intros)
  have r: "run [CallPut 1 10 0, CallPut 2 20 1] (New ?opts) = Some (?c, [])"
    by (simp add: cache_eval)
  have s: "step (CallPut 3 30 2) ?c = Some (?c', [(1, 10)])"
    by (simp add: cache_eval)
  have l: "lookup ?c 1 \<noteq> None" "lookup ?c' 1 = None"
    by (simp_all add: cache_eval)
  have i: "\<forall>v now. CallPut 1 v now \<notin> set [CallGet 1 2, CallPut 3 30 3 :: (nat, nat) call]"
    by simp
  have e: "\<forall>v now. CallPut 1 v now \<notin> set [CallGet 1 3, CallInvalidate 2 :: (nat, nat) call]"
    by simp
  have x: "CallPut 3 30 2 = CallInvalidate 1 \<or>
      (\<exists>k' v now c' fired. CallPut 3 30 2 = CallPut k' v now \<and> lookup ?c 1 \<noteq> None \<and>
        step (CallPut 3 30 2) ?c = Some (c', fired) \<and> lookup c' 1 = None)"
    using s l by blast
  show ?thesis
    using a r s absent_until_Put [OF a r _ i, of "CallInvalidate 1"]
      absent_until_Put [OF a r x e]
    by blast
qed


section \<open>Least recently used\<close>

text \<open>The keys of the list from front to back, while new keys are put into free room.\<close>

lemma Put_room:
  assumes w: "wf c" and n: "lookup c k = None"
    and r: "int (length (entries c)) + 1 \<le> maximumSize c"
  shows "\<exists>c'. Put k v now c = Some (c', []) \<and> wf c' \<and>
     maximumSize c' = maximumSize c \<and> onRemoval c' = onRemoval c \<and>
     map (\<lambda>el. ekey (heap c' ! el)) (entries c') = k # map (\<lambda>el. ekey (heap c ! el)) (entries c) \<and>
     length (entries c') = length (entries c) + 1 \<and>
     (\<forall>k'. lookup c' k' = (if k' = k then Some v else lookup c k'))"
proof -
  let ?en = "\<lparr>ekey = k, evalue = v, lastAccess = now\<rparr>"
  let ?c = "c\<lparr>heap := heap c @ [?en], entries := length (heap c) # entries c,
      cache := cache c @ [(k, length (heap c))]\<rparr>"
  from n have m: "map_of (cache c) k = None" by (simp add: lookup_None_iff [OF w])
  from r have "\<not> (maximumSize c > 0 \<and> int (length (entries c)) + 1 > maximumSize c)" by simp
  with m have p: "Put k v now c = Some (?c, [])" by (rule Put_miss_room)
  have w': "wf ?c" using w m by (rule wf_push) simp
  have "el < length (heap c)" if "el \<in> set (entries c)" for el
    using wf_entryD [OF w that] by simp
  then have o: "map (\<lambda>el. ekey (heap ?c ! el)) (entries ?c) =
      k # map (\<lambda>el. ekey (heap c ! el)) (entries c)"
    by (simp add: nth_append)
  have l: "\<forall>k'. lookup ?c k' = (if k' = k then Some v else lookup c k')"
    using lookup_push [OF w m, where en = ?en] by simp
  show ?thesis
    using p w' o l by (intro exI [of _ ?c]) simp
qed

lemma fill:
  "wf c \<Longrightarrow> distinct (map fst puts) \<Longrightarrow> \<forall>k \<in> set (map fst puts). lookup c k = None \<Longrightarrow>
   int (length (entries c) + length puts) \<le> maximumSize c \<Longrightarrow>
   \<exists>c'. run (map (\<lambda>(k, v, now). CallPut k v now) puts) c = Some (c', []) \<and> wf c' \<and>
     maximumSize c' = maximumSize c \<and> onRemoval c' = onRemoval c \<and>
     map (\<lambda>el. ekey (heap c' ! el)) (entries c') =
       rev (map fst puts) @ map (\<lambda>el. ekey (heap c ! el)) (entries c) \<and>
     length (entries c') = length (entries c) + length puts \<and>
     (\<forall>k. lookup c' k = (case map_of puts k of None \<Rightarrow> lookup c k | Some (v, now) \<Rightarrow> Some v))"
proof (induction puts arbitrary: c)
  case Nil
  then show ?case by simp
next
  case (Cons p ps)
  obtain k v now where p: "p = (k, v, now)" by (cases p)
  from Cons.prems(3) p have n: "lookup c k = None" by simp
  from Cons.prems(4) have r: "int (length (entries c)) + 1 \<le> maximumSize c" by simp
  from Put_room [OF Cons.prems(1) n r, of v now] obtain c1 where
    s: "Put k v now c = Some (c1, [])" and w1: "wf c1" and
    m1: "maximumSize c1 = maximumSize c" and o1: "onRemoval c1 = onRemoval c" and
    k1: "map (\<lambda>el. ekey (heap c1 ! el)) (entries c1) =
       k # map (\<lambda>el. ekey (heap c ! el)) (entries c)" and
    e1: "length (entries c1) = length (entries c) + 1" and
    l1: "\<forall>k'. lookup c1 k' = (if k' = k then Some v else lookup c k')"
    by (elim exE conjE)
  from Cons.prems(2) p have d: "distinct (map fst ps)" and nk: "k \<notin> set (map fst ps)"
    by simp_all
  have a: "\<forall>k' \<in> set (map fst ps). lookup c1 k' = None"
    using Cons.prems(3) l1 nk by auto
  have b: "int (length (entries c1) + length ps) \<le> maximumSize c1"
    using Cons.prems(4) e1 m1 by simp
  from Cons.IH [OF w1 d a b] obtain c2 where
    r2: "run (map (\<lambda>(k, v, now). CallPut k v now) ps) c1 = Some (c2, [])" and w2: "wf c2" and
    m2: "maximumSize c2 = maximumSize c1" and o2: "onRemoval c2 = onRemoval c1" and
    k2: "map (\<lambda>el. ekey (heap c2 ! el)) (entries c2) =
       rev (map fst ps) @ map (\<lambda>el. ekey (heap c1 ! el)) (entries c1)" and
    e2: "length (entries c2) = length (entries c1) + length ps" and
    l2: "\<forall>k'. lookup c2 k' =
       (case map_of ps k' of None \<Rightarrow> lookup c1 k' | Some (v, now) \<Rightarrow> Some v)"
    by (elim exE conjE)
  have l: "lookup c2 k' =
       (case map_of (p # ps) k' of None \<Rightarrow> lookup c k' | Some (v, now) \<Rightarrow> Some v)" for k'
  proof (cases "k' = k")
    case True
    from nk have "map_of ps k = None" by (simp add: map_of_eq_None_iff)
    then show ?thesis using True l1 l2 p by simp
  next
    case False
    then show ?thesis using l1 l2 p by (simp split: option.splits)
  qed
  have "run (map (\<lambda>(k, v, now). CallPut k v now) (p # ps)) c = Some (c2, [])"
    using s r2 p by simp
  then show ?case
    using w2 m1 m2 o1 o2 k1 k2 e1 e2 l p by (intro exI [of _ c2]) simp
qed


text \<open>
  Claim C2. A cache is made by \<^verbatim>\<open>New\<close> with the maximum size \<open>N > 0\<close>, and \<open>N + 1\<close>
  calls of \<^verbatim>\<open>Put\<close> with pairwise different keys follow, with no other call between
  them. All of them return; the listener, when one is configured, is called once in all,
  with the key and the value of the first \<^verbatim>\<open>Put\<close>; \<^verbatim>\<open>GetIfPresent\<close> then returns
  absent for the first key; the cache holds every other key with its value; and the
  list has \<open>N\<close> elements.
\<close>

theorem LRU_evicts_first_inserted:
  assumes a: "list_all api_option opts" and m: "maximumSize (New opts) = int N" and n: "0 < N"
    and len: "length puts = N + 1" and d: "distinct (map fst puts)"
  shows "\<exists>c log. run (map (\<lambda>(k, v, now). CallPut k v now) puts) (New opts) = Some (c, log) \<and>
     log = (if onRemoval (New opts) = None then [] else [(fst (hd puts), fst (snd (hd puts)))]) \<and>
     (\<forall>now. GetIfPresent (fst (hd puts)) now c = Some (c, None)) \<and>
     (\<forall>(k, v, now) \<in> set (tl puts). lookup c k = Some v) \<and>
     length (entries c) = N"
proof -
  from len have "puts \<noteq> []" by auto
  then have pe: "puts = butlast puts @ [last puts]" by simp
  define ps where "ps = butlast puts"
  obtain kN vN tN where pN: "last puts = (kN, vN, tN)" by (cases "last puts")
  from pe have puts: "puts = ps @ [(kN, vN, tN)]" by (simp add: ps_def pN)
  from len have lps: "length ps = N" by (simp add: ps_def)
  with n obtain p0 ps' where ps: "ps = p0 # ps'" by (cases ps) auto
  obtain k0 v0 t0 where p0: "p0 = (k0, v0, t0)" by (cases p0)
  from d puts have dps: "distinct (map fst ps)" and nN: "kN \<notin> set (map fst ps)" by simp_all
  from nN ps p0 have k0N: "k0 \<noteq> kN" by auto
  from dps ps p0 have n0: "k0 \<notin> set (map fst ps')" by simp
  have w0: "wf (New opts)" using a by (rule wf_New)
  from New_empty [OF a] have e0: "entries (New opts) = []" and
    l0: "\<And>k. lookup (New opts) k = None" by (simp_all add: lookup_def)
  have b0: "int (length (entries (New opts)) + length ps) \<le> maximumSize (New opts)"
    using e0 m lps by simp
  from fill [OF w0 dps _ b0] l0 obtain c1 where
    r1: "run (map (\<lambda>(k, v, now). CallPut k v now) ps) (New opts) = Some (c1, [])" and
    w1: "wf c1" and m1: "maximumSize c1 = maximumSize (New opts)" and
    o1: "onRemoval c1 = onRemoval (New opts)" and
    k1: "map (\<lambda>el. ekey (heap c1 ! el)) (entries c1) =
       rev (map fst ps) @ map (\<lambda>el. ekey (heap (New opts) ! el)) (entries (New opts))" and
    e1: "length (entries c1) = length (entries (New opts)) + length ps" and
    l1: "\<forall>k. lookup c1 k =
       (case map_of ps k of None \<Rightarrow> lookup (New opts) k | Some (v, now) \<Rightarrow> Some v)"
    by auto
  from e1 e0 lps have e1': "length (entries c1) = N" by simp
  with n have ne: "entries c1 \<noteq> []" by auto
  let ?old = "last (entries c1)"
  have "ekey (heap c1 ! ?old) = last (map (\<lambda>el. ekey (heap c1 ! el)) (entries c1))"
    using ne by (simp add: last_map)
  also have "\<dots> = k0" unfolding k1 using e0 ps p0 by simp
  finally have ko: "ekey (heap c1 ! ?old) = k0" .
  have lk0: "lookup c1 k0 = Some v0" using l1 ps p0 by simp
  from lookup_oldest [OF w1 ne] ko lk0 have vo: "evalue (heap c1 ! ?old) = v0" by simp
  from nN have "map_of ps kN = None" by (simp add: map_of_eq_None_iff)
  with l1 l0 have "lookup c1 kN = None" by simp
  then have mN: "map_of (cache c1) kN = None" by (simp add: lookup_None_iff [OF w1])
  have pos: "maximumSize c1 > 0" using m1 m n by simp
  have full: "int (length (entries c1)) + 1 > maximumSize c1" using m1 m e1' by simp
  let ?en = "\<lparr>ekey = kN, evalue = vN, lastAccess = tN\<rparr>"
  let ?c2 = "c1\<lparr>heap := heap c1 @ [?en], entries := length (heap c1) # butlast (entries c1),
      cache := AList.delete (ekey (heap c1 ! ?old)) (cache c1) @ [(kN, length (heap c1))]\<rparr>"
  let ?log = "if onRemoval (New opts) = None then [] else [(k0, v0)]"
  have fired: "(case onRemoval c1 of None \<Rightarrow> []
      | Some f \<Rightarrow> [(ekey (heap c1 ! ?old), evalue (heap c1 ! ?old))]) = ?log"
    unfolding o1 ko vo by (cases "onRemoval (New opts)") simp_all
  have p2: "Put kN vN tN c1 = Some (?c2, ?log)"
    using Put_miss_full [OF w1 mN pos full, of vN tN] unfolding fired .
  have w2: "wf ?c2" using w1 mN ne by (rule wf_evict) simp
  have l2: "lookup ?c2 k' = (if k' = kN then Some vN else if k' = k0 then None else lookup c1 k')"
    for k'
    using lookup_evict [OF w1 mN ne, where en = ?en and k' = k'] ko by simp
  have r2: "run (map (\<lambda>(k, v, now). CallPut k v now) puts) (New opts) = Some (?c2, ?log)"
    unfolding puts using r1 p2 by (simp add: run_append)
  have hdp: "hd puts = (k0, v0, t0)" and tlp: "tl puts = ps' @ [(kN, vN, tN)]"
    using puts ps p0 by simp_all
  from l2 k0N have "lookup ?c2 k0 = None" by simp
  then have "map_of (cache ?c2) k0 = None" by (simp only: lookup_None_iff [OF w2])
  then have g: "\<forall>now. GetIfPresent k0 now ?c2 = Some (?c2, None)"
    by (simp only: GetIfPresent_miss simp_thms)
  have t: "lookup ?c2 k = Some v" if "(k, v, now) \<in> set (tl puts)" for k v now
  proof (cases "(k, v, now) = (kN, vN, tN)")
    case True
    then show ?thesis using l2 by simp
  next
    case False
    with that tlp have i: "(k, v, now) \<in> set ps'" by auto
    then have kk: "k \<in> set (map fst ps')" by force
    with n0 have k0': "k \<noteq> k0" by auto
    from kk nN ps have kN': "k \<noteq> kN" by auto
    from i ps have "(k, v, now) \<in> set ps" by simp
    with dps have "map_of ps k = Some (v, now)" by simp
    with l1 have "lookup c1 k = Some v" by simp
    then show ?thesis using l2 k0' kN' by simp
  qed
  have len2: "length (entries ?c2) = N" using e1' n by simp
  show ?thesis
  proof (intro exI [of _ ?c2] exI [of _ ?log] conjI)
    show "run (map (\<lambda>(k, v, now). CallPut k v now) puts) (New opts) = Some (?c2, ?log)"
      by (rule r2)
    show "?log = (if onRemoval (New opts) = None then []
        else [(fst (hd puts), fst (snd (hd puts)))])"
      by (simp add: hdp)
    show "\<forall>now. GetIfPresent (fst (hd puts)) now ?c2 = Some (?c2, None)"
      unfolding hdp fst_conv by (rule g)
    show "\<forall>(k, v, now) \<in> set (tl puts). lookup ?c2 k = Some v"
      using t by blast
    show "length (entries ?c2) = N" by (rule len2)
  qed
qed

theorem LRU_evicts_first_inserted_witness:
  "list_all api_option
     [WithMaximumSize 2, WithRemovalListener (Some ()) :: (nat, nat, unit) localCache \<Rightarrow> _] \<and>
   maximumSize (New [WithMaximumSize 2, WithRemovalListener (Some ())]
     :: (nat, nat, unit) localCache) = int 2 \<and>
   length [(1 :: nat, 10 :: nat, 0 :: nat), (2, 20, 1), (3, 30, 2)] = 2 + 1 \<and>
   distinct (map fst [(1 :: nat, 10 :: nat, 0 :: nat), (2, 20, 1), (3, 30, 2)]) \<and>
   (\<exists>c. run [CallPut 1 10 0, CallPut 2 20 1, CallPut 3 30 2]
        (New [WithMaximumSize 2, WithRemovalListener (Some ())]
          :: (nat, nat, unit) localCache) = Some (c, [(1, 10)]) \<and>
      GetIfPresent 1 7 c = Some (c, None) \<and>
      lookup c 2 = Some 20 \<and> lookup c 3 = Some 30 \<and> length (entries c) = 2)"
proof -
  let ?opts = "[WithMaximumSize 2, WithRemovalListener (Some ())
      :: (nat, nat, unit) localCache \<Rightarrow> _]"
  let ?puts = "[(1 :: nat, 10 :: nat, 0 :: nat), (2, 20, 1), (3, 30, 2)]"
  have a: "list_all api_option ?opts" by (simp add: api_option.intros)
  have m: "maximumSize (New ?opts) = int 2"
    by (simp add: New_def WithMaximumSize_def WithRemovalListener_def newLocalCache_def)
  have o: "onRemoval (New ?opts) \<noteq> None"
    by (simp add: New_def WithMaximumSize_def WithRemovalListener_def)
  have n: "0 < (2 :: nat)" by simp
  have len: "length ?puts = 2 + 1" by simp
  have d: "distinct (map fst ?puts)" by simp
  from LRU_evicts_first_inserted [OF a m n len d] o
  have "\<exists>c. run [CallPut 1 10 0, CallPut 2 20 1, CallPut 3 30 2] (New ?opts) =
        Some (c, [(1, 10)]) \<and>
      GetIfPresent 1 7 c = Some (c, None) \<and>
      lookup c 2 = Some 20 \<and> lookup c 3 = Some 30 \<and> length (entries c) = 2"
    by auto
  with a m len d show ?thesis by blast
qed

section \<open>The removal listener when calls overlap\<close>

text \<open>
  Claim C4 says that, with a listener configured, every entry ever inserted is reported
  exactly once in its lifetime, with the value last stored for its key before it left
  the cache. The code does not do so when a \<^verbatim>\<open>Put\<close> of a held key overlaps an
  \<^verbatim>\<open>InvalidateAll\<close>. In a cache of maximum size 2 with a listener: \<^verbatim>\<open>Put(1, 10)\<close>;
  then \<^verbatim>\<open>Put(1, 11)\<close> finds the element of key 1 in the map and releases the read lock;
  \<^verbatim>\<open>InvalidateAll\<close> runs and reports \<open>(1, 10)\<close>; the \<^verbatim>\<open>Put\<close> goes on, writes 11 into
  the entry that has left and, as \<^verbatim>\<open>Init\<close> left the element's \<^verbatim>\<open>list\<close> set, moves it
  back into the list; then \<^verbatim>\<open>Put(2, 20)\<close>, \<^verbatim>\<open>Put(3, 30)\<close>, \<^verbatim>\<open>Put(4, 40)\<close>. The last
  one evicts the element of key 1 and reports \<open>(1, 11)\<close>: the one entry of key 1 is
  reported twice, the second time with a value stored after it left, and the map is
  left with the three keys 2, 3, 4. The listener's calls are listed call by call.
\<close>

theorem overlapping_Put_reported_twice:
  "do {
     (c, l1) \<leftarrow> Put_linked 1 10 0
        (linked (New [WithMaximumSize 2, WithRemovalListener (Some ())]
           :: (nat, nat, unit) localCache));
     el \<leftarrow> PutRead 1 c;
     (c, l2) \<leftarrow> InvalidateAll_linked c;
     (c, l3) \<leftarrow> PutHit el 11 1 c;
     (c, l4) \<leftarrow> Put_linked 2 20 2 c;
     (c, l5) \<leftarrow> Put_linked 3 30 3 c;
     (c, l6) \<leftarrow> Put_linked 4 40 4 c;
     Some (map fst (l_cache c), len c, [l1, l2, l3, l4, l5, l6])
   } = Some ([2, 3, 4], 2, [[], [(1, 10)], [], [], [], [(1, 11)]])"
  by code_simp

text \<open>
  With the same calls one at a time, in either order of the two that overlapped, the
  cache laid out field by field does what the cache with the list as a sequence does.
\<close>

lemma linked_agrees_one_at_a_time:
  "do {
     (c, l1) \<leftarrow> Put_linked 1 10 0
        (linked (New [WithMaximumSize 2, WithRemovalListener (Some ())]
           :: (nat, nat, unit) localCache));
     (c, l2) \<leftarrow> Put_linked 1 11 1 c;
     (c, l3) \<leftarrow> InvalidateAll_linked c;
     (c, l4) \<leftarrow> Put_linked 2 20 2 c;
     (c, l5) \<leftarrow> Put_linked 3 30 3 c;
     (c, l6) \<leftarrow> Put_linked 4 40 4 c;
     Some (map fst (l_cache c), len c, l1 @ l2 @ l3 @ l4 @ l5 @ l6)
   } = Some ([3, 4], 2, [(1, 11), (2, 20)])"
  "map_option (\<lambda>(c, log). (map fst (cache c), int (length (entries c)), log))
     (run [CallPut 1 10 0, CallPut 1 11 1, CallInvalidateAll, CallPut 2 20 2,
           CallPut 3 30 3, CallPut 4 40 4]
        (New [WithMaximumSize 2, WithRemovalListener (Some ())]
           :: (nat, nat, unit) localCache))
   = Some ([3, 4], 2, [(1, 11), (2, 20)])"
  "do {
     (c, l1) \<leftarrow> Put_linked 1 10 0
        (linked (New [WithMaximumSize 2, WithRemovalListener (Some ())]
           :: (nat, nat, unit) localCache));
     (c, l2) \<leftarrow> InvalidateAll_linked c;
     (c, l3) \<leftarrow> Put_linked 1 11 1 c;
     (c, l4) \<leftarrow> Put_linked 2 20 2 c;
     (c, l5) \<leftarrow> Put_linked 3 30 3 c;
     (c, l6) \<leftarrow> Put_linked 4 40 4 c;
     Some (map fst (l_cache c), len c, l1 @ l2 @ l3 @ l4 @ l5 @ l6)
   } = Some ([3, 4], 2, [(1, 10), (1, 11), (2, 20)])"
  "map_option (\<lambda>(c, log). (map fst (cache c), int (length (entries c)), log))
     (run [CallPut 1 10 0, CallInvalidateAll, CallPut 1 11 1, CallPut 2 20 2,
           CallPut 3 30 3, CallPut 4 40 4]
        (New [WithMaximumSize 2, WithRemovalListener (Some ())]
           :: (nat, nat, unit) localCache))
   = Some ([3, 4], 2, [(1, 10), (1, 11), (2, 20)])"
  by code_simp+

end
